theory Spec2Isabelle
  imports Main "HOL-Library.Word"
begin

section \<open>Engine types and helpers used by the line counter\<close>

text \<open>
  \<^verbatim>\<open>size_t\<close> of the 64-bit target; \<^verbatim>\<open>unsigned int\<close> values are kept as naturals and
  truncated to 32 bits where the source stores them.
\<close>

type_synonym size_t = "64 word"

definition u32 :: "nat \<Rightarrow> nat" where
  "u32 n = n mod 2 ^ 32"

text \<open>The engine's kilobyte constant, and the two macros of \<^verbatim>\<open>main.cpp\<close> built on it.\<close>

definition ECS_KB :: nat where
  "ECS_KB = 1024"


definition MAX_NEW_LINES_PER_FILE :: nat where
  "MAX_NEW_LINES_PER_FILE = ECS_KB * 128"

text \<open>
  Modelled from the spec: \<^verbatim>\<open>ECS_ASSERT\<close> and the asserting \<^verbatim>\<open>Add\<close> of a fixed-capacity
  stream are engine code that is not part of \<^verbatim>\<open>main.cpp\<close>.  The spec calls both a hard cap
  with abort-on-overflow: a failed assertion ends the whole process.
\<close>

datatype fault = AssertionFailed

text \<open>
  \<^verbatim>\<open>Stream<char>\<close> is a pointer and a size.  The model keeps the \<^verbatim>\<open>size\<close> characters the
  stream holds and, apart, the bytes that follow them in the allocation: \<^verbatim>\<open>SkipWhitespace\<close>
  is given no end pointer and may read them.
\<close>

record Stream_char =
  content :: string
  beyond :: string

definition memory :: "Stream_char \<Rightarrow> string" where
  "memory s = content s @ beyond s"

text \<open>\<^verbatim>\<open>CapacityStream<T>\<close>: the elements added so far and the fixed capacity.\<close>

record 'a CapacityStream =
  items :: "'a list"
  capacity :: nat

type_synonym CapacityStream_uint = "nat CapacityStream"

abbreviation newline :: char where
  "newline \<equiv> CHR 0x0A"

text \<open>
  Modelled from the spec: \<^verbatim>\<open>function::IsCodeIdentifierCharacter\<close> is engine code; the spec
  gives the class as letter, digit or underscore.
\<close>

definition IsCodeIdentifierCharacter :: "char \<Rightarrow> bool" where
  "IsCodeIdentifierCharacter c =
     (let n = (of_char c :: nat)
      in (97 \<le> n \<and> n \<le> 122) \<or> (65 \<le> n \<and> n \<le> 90) \<or> (48 \<le> n \<and> n \<le> 57) \<or> n = 95)"

text \<open>
  \<^verbatim>\<open>function::SkipWhitespace(pointer)\<close> advances the pointer while it points at a
  whitespace character.  Which characters the engine takes for whitespace is not visible
  from \<^verbatim>\<open>main.cpp\<close>, so the class is the parameter \<open>ws\<close>.  Pointers into a buffer are
  offsets; the walk stops where the modelled memory ends.
\<close>

function SkipWhitespace :: "(char \<Rightarrow> bool) \<Rightarrow> string \<Rightarrow> nat \<Rightarrow> nat" where
  "SkipWhitespace ws mem p =
     (if p < length mem \<and> ws (mem ! p) then SkipWhitespace ws mem (p + 1) else p)"
  by pat_completeness auto
termination
  by (relation "measure (\<lambda>(ws, mem, p). length mem - p)") auto

declare SkipWhitespace.simps [simp del]

text \<open>
  Modelled from the spec: \<^verbatim>\<open>function::FindToken\<close> locates every occurrence of the token and
  records its position, in ascending order, in the capacity stream.
\<close>

fun FindToken_from :: "nat \<Rightarrow> string \<Rightarrow> char \<Rightarrow> nat list" where
  "FindToken_from i [] token = []"
| "FindToken_from i (c # cs) token =
     (if c = token then u32 i # FindToken_from (Suc i) cs token
      else FindToken_from (Suc i) cs token)"

definition FindToken ::
  "string \<Rightarrow> char \<Rightarrow> CapacityStream_uint \<Rightarrow> fault + CapacityStream_uint" where
  "FindToken text token tokens =
     (let found = FindToken_from 0 text token
      in if length (items tokens) + length found \<le> capacity tokens
         then Inr (tokens\<lparr>items := items tokens @ found\<rparr>)
         else Inl AssertionFailed)"

section \<open>The SLOC counter\<close>

text \<open>The scanning loop of \<^verbatim>\<open>AreSlocCharacters\<close>.\<close>

function AreSlocCharacters_scan :: "string \<Rightarrow> nat \<Rightarrow> nat \<Rightarrow> bool" where
  "AreSlocCharacters_scan mem first end' =
     (if first < end' then
        (if IsCodeIdentifierCharacter (mem ! first) then True
         else AreSlocCharacters_scan mem (first + 1) end')
      else False)"
  by pat_completeness auto
termination
  by (relation "measure (\<lambda>(mem, first, end'). end' - first)") auto

declare AreSlocCharacters_scan.simps [simp del]

definition AreSlocCharacters :: "(char \<Rightarrow> bool) \<Rightarrow> string \<Rightarrow> nat \<Rightarrow> nat \<Rightarrow> bool" where
  "AreSlocCharacters ws mem first end' =
     (let first = SkipWhitespace ws mem first
      in if first > end' then False
         else AreSlocCharacters_scan mem first end')"

text \<open>The three variables the lambda \<^verbatim>\<open>verify_line\<close> of \<^verbatim>\<open>GetSloc\<close> captures by reference.\<close>

record sloc_state =
  sloc_count :: size_t
  current_character :: nat
  last_line_character_offset :: nat

definition verify_line :: "(char \<Rightarrow> bool) \<Rightarrow> string \<Rightarrow> sloc_state \<Rightarrow> sloc_state" where
  "verify_line ws mem st =
     (let last_line_character = last_line_character_offset st;
          first_char_non_space = SkipWhitespace ws mem (current_character st)
      in if first_char_non_space = last_line_character then
           st\<lparr>sloc_count := sloc_count st - 1,
              current_character := u32 (last_line_character_offset st + 1)\<rparr>
         else
           (let has_sloc = AreSlocCharacters ws mem first_char_non_space last_line_character
            in st\<lparr>sloc_count := sloc_count st - (if has_sloc then 0 else 1),
                  current_character := u32 (last_line_character_offset st + 1)\<rparr>))"

text \<open>The \<^verbatim>\<open>for\<close> loop over the recorded newline positions.\<close>

fun verify_lines :: "(char \<Rightarrow> bool) \<Rightarrow> string \<Rightarrow> nat list \<Rightarrow> sloc_state \<Rightarrow> sloc_state" where
  "verify_lines ws mem [] st = st"
| "verify_lines ws mem (p # ps) st =
     verify_lines ws mem ps (verify_line ws mem (st\<lparr>last_line_character_offset := p\<rparr>))"

definition GetSloc ::
  "(char \<Rightarrow> bool) \<Rightarrow> Stream_char \<Rightarrow> CapacityStream_uint \<Rightarrow> fault + size_t" where
  "GetSloc ws cont new_line_positions =
     (case FindToken (content cont) newline new_line_positions of
        Inl f \<Rightarrow> Inl f
      | Inr new_line_positions \<Rightarrow>
          if \<not> length (items new_line_positions) < MAX_NEW_LINES_PER_FILE
          then Inl AssertionFailed
          else
            (let st0 = \<lparr>sloc_count = of_nat (length (items new_line_positions)) + 1,
                        current_character = 0,
                        last_line_character_offset = 0\<rparr>;
                 st1 = verify_lines ws (memory cont) (items new_line_positions) st0;
                 st2 = verify_line ws (memory cont)
                         (st1\<lparr>last_line_character_offset := u32 (length (content cont))\<rparr>)
             in Inr (sloc_count st2)))"


text \<open>
  The reading of the spec the counter is compared with: the text is
  \<open>terminator_count + 1\<close> logical lines, the last one possibly empty, and a line counts
  when, after its leading whitespace, it holds a code-identifier character.
\<close>

fun logical_lines :: "string \<Rightarrow> string list" where
  "logical_lines [] = [[]]"
| "logical_lines (c # cs) =
     (if c = newline then [] # logical_lines cs
      else (case logical_lines cs of l # ls \<Rightarrow> (c # l) # ls | [] \<Rightarrow> [[c]]))"

definition line_counts :: "(char \<Rightarrow> bool) \<Rightarrow> string \<Rightarrow> bool" where
  "line_counts ws l = list_ex IsCodeIdentifierCharacter (dropWhile ws l)"

definition sloc_of_text :: "(char \<Rightarrow> bool) \<Rightarrow> string \<Rightarrow> nat" where
  "sloc_of_text ws xs = length (filter (line_counts ws) (logical_lines xs))"

section \<open>The work partitioner\<close>

text \<open>\<^verbatim>\<open>ThreadPartition\<close>: the offset and the size of one worker's slice.\<close>

record ThreadPartition =
  offset :: nat
  size' :: nat

text \<open>
  Modelled from the spec: \<^verbatim>\<open>ThreadPartitionStream\<close> is engine code.  The spec gives the
  algorithm: \<open>base = N / T\<close>, \<open>remainder = N % T\<close>; the first \<open>remainder\<close> workers receive
  \<open>base + 1\<close> items, the rest receive \<open>base\<close>; offsets are the running prefix sum.
\<close>

definition partition_sizes :: "nat \<Rightarrow> nat \<Rightarrow> nat list" where
  "partition_sizes T N =
     (let base = N div T; remainder = N mod T
      in map (\<lambda>i. if i < remainder then base + 1 else base) [0..<T])"

fun running_offsets :: "nat \<Rightarrow> nat list \<Rightarrow> ThreadPartition list" where
  "running_offsets running [] = []"
| "running_offsets running (s # ss) =
     \<lparr>offset = running, size' = s\<rparr> # running_offsets (running + s) ss"

definition ThreadPartitionStream :: "nat \<Rightarrow> nat \<Rightarrow> ThreadPartition list" where
  "ThreadPartitionStream T N = running_offsets 0 (partition_sizes T N)"

text \<open>
  The invariant of the data model: partitions are ordered, disjoint, and cover the index
  range from \<open>a\<close> up to \<open>b\<close>.
\<close>

fun tiles :: "nat \<Rightarrow> ThreadPartition list \<Rightarrow> nat \<Rightarrow> bool" where
  "tiles a [] b = (a = b)"
| "tiles a (p # ps) b = (offset p = a \<and> tiles (a + size' p) ps b)"

section \<open>The counting workers\<close>

text \<open>
  A discovered file, as the worker meets it: \<^verbatim>\<open>OpenFile\<close> fails and leaves a message,
  \<^verbatim>\<open>ReadFromFile\<close> returns \<open>-1\<close>, or the bytes read.
\<close>

datatype file_outcome = OpenFailed string | ReadFailed | FileText string

record source_file =
  path :: string
  outcome :: file_outcome

text \<open>
  The pieces of text the worker writes into its two diagnostic buffers, one constructor
  per format string of the source.  A buffer is a \<^verbatim>\<open>CapacityStream<char>\<close>: the pieces
  written so far and the capacity in characters that \<^verbatim>\<open>main\<close> gave it.
\<close>

datatype message =
    ThreadErrorsHeader nat
  | ThreadAdditionalHeader nat
  | OpenFileMessage string
  | NewLineCharacter
  | ReadingFailed string
  | ParsingFailed string
  | FileHasSloc string size_t
  | TotalLineCount size_t

type_synonym CapacityStream_char = "message CapacityStream"

definition COUNT_ERROR_MESSAGE_CAPACITY :: nat where
  "COUNT_ERROR_MESSAGE_CAPACITY = ECS_KB * 16"

definition ADDITIONAL_MESSAGE_ALLOCATION_CAPACITY :: nat where
  "ADDITIONAL_MESSAGE_ALLOCATION_CAPACITY = ECS_KB * 64"

text \<open>
  The engine functions the worker calls and \<^verbatim>\<open>main.cpp\<close> does not define are parameters:
  the whitespace class of \<^verbatim>\<open>SkipWhitespace\<close>, the two comment removers, each of which
  returns a stream or ends the process, and the test whether a buffer still has room for
  a piece (how long a formatted piece is, and where exactly the buffer is full, is the
  engine's to say).
\<close>

record engine =
  IsWhitespace :: "char \<Rightarrow> bool"
  RemoveSingleLineComment :: "Stream_char \<Rightarrow> fault + Stream_char"
  RemoveMultiLineComments :: "Stream_char \<Rightarrow> fault + Stream_char"
  has_room :: "CapacityStream_char \<Rightarrow> message \<Rightarrow> bool"

text \<open>
  Modelled from the spec: every write of the worker into a diagnostic buffer
  (\<^verbatim>\<open>AddStreamSafe\<close>, \<^verbatim>\<open>AddSafe\<close>, \<^verbatim>\<open>ECS_FORMAT_STRING\<close>, the message \<^verbatim>\<open>OpenFile\<close> leaves) is an
  engine append into a fixed-capacity stream, a hard cap with abort-on-overflow: the
  piece is appended when the engine finds room for it, and the assertion fails otherwise.
\<close>

definition AddStreamSafe ::
  "engine \<Rightarrow> CapacityStream_char \<Rightarrow> message \<Rightarrow> fault + CapacityStream_char" where
  "AddStreamSafe E buf piece =
     (if has_room E buf piece then Inr (buf\<lparr>items := items buf @ [piece]\<rparr>)
      else Inl AssertionFailed)"

text \<open>The locals of the worker's file loop.\<close>

record count_state =
  error_message :: CapacityStream_char
  additional_display_message :: CapacityStream_char
  errors :: size_t
  thread_sloc :: size_t

text \<open>The body of the \<^verbatim>\<open>for\<close> loop of \<^verbatim>\<open>LineCountThreadTask\<close>, for one file.\<close>

definition count_file :: "engine \<Rightarrow> bool \<Rightarrow> source_file \<Rightarrow> count_state \<Rightarrow> fault + count_state" where
  "count_file E display_per_file_count f st =
     (case outcome f of
        OpenFailed msg \<Rightarrow>
          (case AddStreamSafe E (error_message st) (OpenFileMessage msg) of
             Inl x \<Rightarrow> Inl x
           | Inr em \<Rightarrow>
               (case AddStreamSafe E em NewLineCharacter of
                  Inl x \<Rightarrow> Inl x
                | Inr em \<Rightarrow> Inr (st\<lparr>error_message := em, errors := errors st + 1\<rparr>)))
      | ReadFailed \<Rightarrow>
          (case AddStreamSafe E (error_message st) (ReadingFailed (path f)) of
             Inl x \<Rightarrow> Inl x
           | Inr em \<Rightarrow> Inr (st\<lparr>error_message := em, errors := errors st + 1\<rparr>))
      | FileText bytes \<Rightarrow>
          (case RemoveSingleLineComment E \<lparr>content = bytes, beyond = [CHR 0x00]\<rparr> of
             Inl x \<Rightarrow> Inl x
           | Inr file_buffer \<Rightarrow>
               (case RemoveMultiLineComments E file_buffer of
                  Inl x \<Rightarrow> Inl x
                | Inr file_buffer \<Rightarrow>
                    (case GetSloc (IsWhitespace E) file_buffer
                            \<lparr>items = [], capacity = MAX_NEW_LINES_PER_FILE\<rparr> of
                       Inl x \<Rightarrow> Inl x
                     | Inr sloc \<Rightarrow>
                         if sloc = - 1 then
                           (case AddStreamSafe E (error_message st) (ParsingFailed (path f)) of
                              Inl x \<Rightarrow> Inl x
                            | Inr em \<Rightarrow> Inr (st\<lparr>error_message := em\<rparr>))
                         else if display_per_file_count then
                           (case AddStreamSafe E (additional_display_message st)
                                   (FileHasSloc (path f) sloc) of
                              Inl x \<Rightarrow> Inl x
                            | Inr am \<Rightarrow>
                                Inr (st\<lparr>thread_sloc := thread_sloc st + sloc,
                                        additional_display_message := am\<rparr>))
                         else Inr (st\<lparr>thread_sloc := thread_sloc st + sloc\<rparr>)))))"

fun count_files ::
  "engine \<Rightarrow> bool \<Rightarrow> source_file list \<Rightarrow> nat \<Rightarrow> nat list \<Rightarrow> count_state \<Rightarrow> fault + count_state" where
  "count_files E d files off [] st = Inr st"
| "count_files E d files off (index # rest) st =
     (case count_file E d (files ! (off + index)) st of
        Inl x \<Rightarrow> Inl x
      | Inr st' \<Rightarrow> count_files E d files off rest st')"

text \<open>The two headers the worker writes before its loop.\<close>

definition write_headers ::
  "engine \<Rightarrow> bool \<Rightarrow> nat \<Rightarrow> CapacityStream_char \<Rightarrow> CapacityStream_char \<Rightarrow> fault + count_state" where
  "write_headers E d thread_id err add =
     (case AddStreamSafe E err (ThreadErrorsHeader thread_id) of
        Inl x \<Rightarrow> Inl x
      | Inr em \<Rightarrow>
          if d then
            (case AddStreamSafe E add (ThreadAdditionalHeader thread_id) of
               Inl x \<Rightarrow> Inl x
             | Inr am \<Rightarrow>
                 Inr \<lparr>error_message = em, additional_display_message = am,
                      errors = 0, thread_sloc = 0\<rparr>)
          else
            Inr \<lparr>error_message = em, additional_display_message = add,
                 errors = 0, thread_sloc = 0\<rparr>)"

text \<open>
  What follows the loop: the reset of an error buffer that holds no counted error, and
  the subtotal line.
\<close>

definition finish_partition :: "engine \<Rightarrow> bool \<Rightarrow> count_state \<Rightarrow> fault + count_state" where
  "finish_partition E d st =
     (let st1 = (if errors st = 0 then st\<lparr>error_message := (error_message st)\<lparr>items := []\<rparr>\<rparr>
                 else st)
      in if d then
           (case AddStreamSafe E (additional_display_message st1)
                   (TotalLineCount (thread_sloc st1)) of
              Inl x \<Rightarrow> Inl x
            | Inr am \<Rightarrow> Inr (st1\<lparr>additional_display_message := am\<rparr>))
         else Inr st1)"

text \<open>
  The worker's own work on its partition, up to the two \<^verbatim>\<open>free\<close> calls: headers, the
  file loop, and what follows it.
\<close>

definition count_partition ::
  "engine \<Rightarrow> bool \<Rightarrow> source_file list \<Rightarrow> ThreadPartition \<Rightarrow> nat
     \<Rightarrow> CapacityStream_char \<Rightarrow> CapacityStream_char \<Rightarrow> fault + count_state" where
  "count_partition E d files part thread_id err add =
     (case write_headers E d thread_id err add of
        Inl x \<Rightarrow> Inl x
      | Inr st0 \<Rightarrow>
          (case count_files E d files (offset part) [0..<size' part] st0 of
             Inl x \<Rightarrow> Inl x
           | Inr st \<Rightarrow> finish_partition E d st))"

text \<open>
  What the counting workers share: the atomic total and the per-thread buffers.  The
  partitions are those the elected worker computed before any worker reads its own.
\<close>

record shared =
  total_line_count :: size_t
  per_thread_error_message :: "CapacityStream_char list"
  per_thread_additional_message :: "CapacityStream_char list"

definition LineCountThreadTask ::
  "engine \<Rightarrow> bool \<Rightarrow> source_file list \<Rightarrow> ThreadPartition list \<Rightarrow> nat \<Rightarrow> shared \<Rightarrow> fault + shared" where
  "LineCountThreadTask E d files thread_partitions thread_id sh =
     (if size' (thread_partitions ! thread_id) > 0 then
        (case count_partition E d files (thread_partitions ! thread_id) thread_id
                (per_thread_error_message sh ! thread_id)
                (per_thread_additional_message sh ! thread_id) of
           Inl x \<Rightarrow> Inl x
         | Inr st \<Rightarrow>
             Inr (sh\<lparr>total_line_count := total_line_count sh + thread_sloc st,
                     per_thread_error_message :=
                       (per_thread_error_message sh)[thread_id := error_message st],
                     per_thread_additional_message :=
                       (per_thread_additional_message sh)
                         [thread_id := additional_display_message st]\<rparr>))
      else Inr sh)"

text \<open>
  The counting phase, with the workers' effects on the shared state applied in the order
  the list gives; a failed assertion in any worker ends the process.
\<close>

fun counting_phase ::
  "engine \<Rightarrow> bool \<Rightarrow> source_file list \<Rightarrow> ThreadPartition list \<Rightarrow> nat list \<Rightarrow> shared \<Rightarrow> fault + shared" where
  "counting_phase E d files parts [] sh = Inr sh"
| "counting_phase E d files parts (t # ts) sh =
     (case LineCountThreadTask E d files parts t sh of
        Inl x \<Rightarrow> Inl x
      | Inr sh' \<Rightarrow> counting_phase E d files parts ts sh')"

text \<open>
  The serial reference: the SLOC of one file computed on its own.  \<open>Inr None\<close> is a file
  that was not parsed (not opened, not read, or reported as a parse failure).
\<close>

definition sloc_of_file :: "engine \<Rightarrow> source_file \<Rightarrow> fault + size_t option" where
  "sloc_of_file E f =
     (case outcome f of
        OpenFailed msg \<Rightarrow> Inr None
      | ReadFailed \<Rightarrow> Inr None
      | FileText bytes \<Rightarrow>
          (case RemoveSingleLineComment E \<lparr>content = bytes, beyond = [CHR 0x00]\<rparr> of
             Inl x \<Rightarrow> Inl x
           | Inr b1 \<Rightarrow>
               (case RemoveMultiLineComments E b1 of
                  Inl x \<Rightarrow> Inl x
                | Inr b2 \<Rightarrow>
                    (case GetSloc (IsWhitespace E) b2
                            \<lparr>items = [], capacity = MAX_NEW_LINES_PER_FILE\<rparr> of
                       Inl x \<Rightarrow> Inl x
                     | Inr sloc \<Rightarrow> if sloc = - 1 then Inr None else Inr (Some sloc)))))"

text \<open>
  The file's own computation (comment removal and \<^verbatim>\<open>GetSloc\<close>) fails no assertion; the
  buffer appends are not part of it.
\<close>

definition counts_without_fault :: "engine \<Rightarrow> source_file \<Rightarrow> bool" where
  "counts_without_fault E f = (case sloc_of_file E f of Inl x \<Rightarrow> False | Inr r \<Rightarrow> True)"

definition sloc_or_zero :: "engine \<Rightarrow> source_file \<Rightarrow> size_t" where
  "sloc_or_zero E f = (case sloc_of_file E f of Inr (Some sloc) \<Rightarrow> sloc | _ \<Rightarrow> 0)"

definition serial_sum :: "engine \<Rightarrow> source_file list \<Rightarrow> size_t" where
  "serial_sum E files = sum_list (map (sloc_or_zero E) files)"

definition partition_slice :: "'a list \<Rightarrow> ThreadPartition \<Rightarrow> 'a list" where
  "partition_slice xs part = take (size' part) (drop (offset part) xs)"

text \<open>No append of the engine ever finds its buffer full.\<close>

definition never_full :: "engine \<Rightarrow> bool" where
  "never_full E = (\<forall>buf piece. has_room E buf piece)"

section \<open>Reading the root-path list\<close>

text \<open>
  The variables of the loop of \<^verbatim>\<open>main\<close> that reads each path: the buffer of
  \<^verbatim>\<open>file_content\<close> (the loop writes terminators into it), the stream \<^verbatim>\<open>search_paths\<close>
  and \<^verbatim>\<open>starting_position\<close>.  \<^verbatim>\<open>ConvertASCIIToWide\<close> keeps every character, so a path is
  the characters copied, terminator included.
\<close>

record search_path_state =
  file_content :: string
  search_paths :: "string list"
  starting_position :: nat

definition read_search_path ::
  "(char \<Rightarrow> bool) \<Rightarrow> nat list \<Rightarrow> nat \<Rightarrow> search_path_state \<Rightarrow> search_path_state" where
  "read_search_path ws new_line_positions index st =
     (let whitespace = SkipWhitespace ws (file_content st) (starting_position st + 1)
      in if whitespace = new_line_positions ! index then
           st\<lparr>starting_position := u32 (new_line_positions ! index + 1)\<rparr>
         else
           (let buf = (file_content st)[new_line_positions ! index := CHR 0x00];
                character_count = new_line_positions ! index - starting_position st + 1;
                allocation = take character_count (drop (starting_position st) buf)
            in st\<lparr>file_content := buf,
                  search_paths := search_paths st @ [allocation],
                  starting_position := u32 (new_line_positions ! index + 1)\<rparr>))"

fun read_search_paths_loop ::
  "(char \<Rightarrow> bool) \<Rightarrow> nat list \<Rightarrow> nat list \<Rightarrow> search_path_state \<Rightarrow> search_path_state" where
  "read_search_paths_loop ws new_line_positions [] st = st"
| "read_search_paths_loop ws new_line_positions (index # rest) st =
     read_search_paths_loop ws new_line_positions rest
       (read_search_path ws new_line_positions index st)"

text \<open>
  The list is read whole and handed to \<^verbatim>\<open>FindToken\<close> as a bare \<^verbatim>\<open>char*\<close>: the text is
  followed by a terminator and scanned up to the first one.  The stack stream of newline
  positions holds 1024 entries.  The result is \<^verbatim>\<open>search_paths_count\<close> and the paths added.
\<close>

definition read_search_paths :: "(char \<Rightarrow> bool) \<Rightarrow> string \<Rightarrow> fault + nat \<times> string list" where
  "read_search_paths ws file_text =
     (let buf = file_text @ [CHR 0x00]
      in case FindToken (takeWhile (\<lambda>c. c \<noteq> CHR 0x00) buf) newline
                \<lparr>items = [], capacity = 1024\<rparr> of
           Inl x \<Rightarrow> Inl x
         | Inr new_line_positions \<Rightarrow>
             (let search_paths_count = length (items new_line_positions);
                  st = read_search_paths_loop ws (items new_line_positions)
                         [0..<search_paths_count]
                         \<lparr>file_content = buf, search_paths = [], starting_position = 0\<rparr>
              in Inr (search_paths_count, search_paths st)))"

text \<open>
  What the loop's test amounts to for a line \<open>l\<close> that a newline ends: the walk starts
  one character after the line's start, so the line is skipped exactly when it is not
  empty, everything after its first character is whitespace, and the walk stops at the
  newline.
\<close>

definition line_added :: "(char \<Rightarrow> bool) \<Rightarrow> string \<Rightarrow> bool" where
  "line_added ws l = (l = [] \<or> \<not> list_all ws (tl l) \<or> ws newline)"

definition c_string :: "string \<Rightarrow> string" where
  "c_string xs = takeWhile (\<lambda>c. c \<noteq> CHR 0x00) xs"

section \<open>The pipeline\<close>

text \<open>
  What a run depends on and \<^verbatim>\<open>main.cpp\<close> does not decide: the argument count, the
  root-path list (\<open>None\<close> when \<^verbatim>\<open>ReadWholeFileText\<close> returns no buffer), the thread count,
  and the files the recursive traversal reports for a search path.
\<close>

record world =
  argc :: nat
  search_path_file :: "string option"
  hardware_concurrency :: nat
  files_under :: "string \<Rightarrow> source_file list"

text \<open>
  The discovery partitions range over \<^verbatim>\<open>search_paths_count\<close> slots of \<^verbatim>\<open>search_paths\<close>,
  but only the lines not skipped were added.  A slot no path was added to holds nothing
  the program wrote: it reads as \<open>None\<close>, and a worker that reads it has no defined
  behaviour.
\<close>

definition slot :: "string list \<Rightarrow> nat \<Rightarrow> string option" where
  "slot paths i = (if i < length paths then Some (paths ! i) else None)"

text \<open>
  The loop of one discovery worker over its partition: every file under each root is
  appended; \<open>None\<close> when a slot never written is read.
\<close>

fun list_roots ::
  "world \<Rightarrow> string list \<Rightarrow> nat \<Rightarrow> nat list \<Rightarrow> source_file list \<Rightarrow> source_file list option" where
  "list_roots w paths off [] source_files = Some source_files"
| "list_roots w paths off (index # rest) source_files =
     (case slot paths (off + index) of
        None \<Rightarrow> None
      | Some p \<Rightarrow> list_roots w paths off rest (source_files @ files_under w p))"








section \<open>A concrete engine\<close>

text \<open>
  Modelled from the spec: the engine's whitespace class and comment removers, for the
  runs evaluated below.  Whitespace is blank or tab.  A single-line comment runs from
  \<^verbatim>\<open>//\<close> to the next line terminator, which stays.  A multi-line comment is the region from
  \<^verbatim>\<open>/*\<close> to the nearest following \<^verbatim>\<open>*/\<close>; an open token with no close token is, in the
  current design, an unconditional abort.  The diagnostics are growable text buffers, so
  an append always finds room.
\<close>

definition IsWhitespaceCharacter :: "char \<Rightarrow> bool" where
  "IsWhitespaceCharacter c = (c = CHR '' '' \<or> c = CHR 0x09)"

fun strip_single_line :: "bool \<Rightarrow> string \<Rightarrow> string" where
  "strip_single_line inside [] = []"
| "strip_single_line True (c # cs) =
     (if c = newline then c # strip_single_line False cs else strip_single_line True cs)"
| "strip_single_line False [c] = [c]"
| "strip_single_line False (c # d # cs) =
     (if c = CHR ''/'' \<and> d = CHR ''/'' then strip_single_line True cs
      else c # strip_single_line False (d # cs))"

fun strip_multi_line :: "bool \<Rightarrow> string \<Rightarrow> string option" where
  "strip_multi_line False [] = Some []"
| "strip_multi_line True [] = None"
| "strip_multi_line False [c] = Some [c]"
| "strip_multi_line True [c] = None"
| "strip_multi_line False (c # d # cs) =
     (if c = CHR ''/'' \<and> d = CHR ''*'' then strip_multi_line True cs
      else map_option ((#) c) (strip_multi_line False (d # cs)))"
| "strip_multi_line True (c # d # cs) =
     (if c = CHR ''*'' \<and> d = CHR ''/'' then strip_multi_line False cs
      else strip_multi_line True (d # cs))"

definition spec_engine :: engine where
  "spec_engine =
     \<lparr>IsWhitespace = IsWhitespaceCharacter,
      RemoveSingleLineComment =
        (\<lambda>s. Inr \<lparr>content = strip_single_line False (content s), beyond = [CHR 0x00]\<rparr>),
      RemoveMultiLineComments =
        (\<lambda>s. case strip_multi_line False (content s) of
                None \<Rightarrow> Inl AssertionFailed
              | Some r \<Rightarrow> Inr \<lparr>content = r, beyond = [CHR 0x00]\<rparr>),
      has_room = (\<lambda>buf piece. True)\<rparr>"


section \<open>Properties of the SLOC counter\<close>

lemma u32_id: "n < 2 ^ 32 \<Longrightarrow> u32 n = n"
  by (simp add: u32_def)

lemma verify_line_count:
  "\<exists>d\<le>1. sloc_count (verify_line ws mem st) = sloc_count st - of_nat d"
proof (cases "sloc_count (verify_line ws mem st) = sloc_count st")
  case True
  then have "sloc_count (verify_line ws mem st) = sloc_count st - of_nat 0" by simp
  then show ?thesis by blast
next
  case False
  then have "sloc_count (verify_line ws mem st) = sloc_count st - of_nat 1"
    by (auto simp: verify_line_def Let_def split: if_splits)
  then show ?thesis by blast
qed

lemma verify_lines_count:
  "\<exists>k\<le>length ps. sloc_count (verify_lines ws mem ps st) = sloc_count st - of_nat k"
proof (induction ps arbitrary: st)
  case Nil
  show ?case by simp
next
  case (Cons p ps)
  let ?st' = "verify_line ws mem (st\<lparr>last_line_character_offset := p\<rparr>)"
  obtain d where d: "d \<le> 1" "sloc_count ?st' = sloc_count st - of_nat d"
    using verify_line_count [of ws mem "st\<lparr>last_line_character_offset := p\<rparr>"] by auto
  obtain k where k: "k \<le> length ps"
    "sloc_count (verify_lines ws mem ps ?st') = sloc_count ?st' - of_nat k"
    using Cons.IH [of ?st'] by auto
  have "sloc_count (verify_lines ws mem (p # ps) st) = sloc_count st - of_nat (d + k)"
    using d k by simp
  moreover have "d + k \<le> length (p # ps)" using d k by simp
  ultimately show ?case by blast
qed

lemma length_FindToken_from: "length (FindToken_from i xs token) = count_list xs token"
  by (induction xs arbitrary: i) auto

text \<open>Every call of \<^verbatim>\<open>verify_line\<close> takes at most one from the count the loop starts with.\<close>

lemma GetSloc_counts_down:
  assumes "count_list (content cont) newline < MAX_NEW_LINES_PER_FILE"
  shows "\<exists>k\<le>count_list (content cont) newline + 1.
           GetSloc ws cont \<lparr>items = [], capacity = MAX_NEW_LINES_PER_FILE\<rparr>
             = Inr (of_nat (count_list (content cont) newline + 1 - k))"
proof -
  let ?n = "count_list (content cont) newline"
  let ?ps = "FindToken_from 0 (content cont) newline"
  let ?st0 = "\<lparr>sloc_count = of_nat ?n + 1, current_character = 0, last_line_character_offset = 0\<rparr>"
  let ?st1 = "verify_lines ws (memory cont) ?ps ?st0"
  let ?st2 = "verify_line ws (memory cont) (?st1\<lparr>last_line_character_offset := u32 (length (content cont))\<rparr>)"
  have len: "length ?ps = ?n" by (rule length_FindToken_from)
  have g: "GetSloc ws cont \<lparr>items = [], capacity = MAX_NEW_LINES_PER_FILE\<rparr> = Inr (sloc_count ?st2)"
    using assms by (simp add: GetSloc_def FindToken_def len Let_def)
  obtain k where k: "k \<le> ?n" "sloc_count ?st1 = sloc_count ?st0 - of_nat k"
    using verify_lines_count [of ?ps ws "memory cont" ?st0] len by auto
  obtain d where d: "d \<le> 1" "sloc_count ?st2 = sloc_count ?st1 - of_nat d"
    using verify_line_count [of ws "memory cont" "?st1\<lparr>last_line_character_offset := u32 (length (content cont))\<rparr>"]
    by auto
  have "sloc_count ?st2 = of_nat (?n + 1) - of_nat (k + d)"
    using k d by simp
  also have "\<dots> = of_nat (?n + 1 - (k + d))"
    using k d by (simp add: of_nat_diff)
  finally have "GetSloc ws cont \<lparr>items = [], capacity = MAX_NEW_LINES_PER_FILE\<rparr>
             = Inr (of_nat (?n + 1 - (k + d)))" using g by simp
  moreover have "k + d \<le> ?n + 1" using k d by simp
  ultimately show ?thesis by blast
qed

lemma GetSloc_returns_iff:
  "(\<exists>sloc. GetSloc ws cont \<lparr>items = [], capacity = MAX_NEW_LINES_PER_FILE\<rparr> = Inr sloc)
     = (count_list (content cont) newline < MAX_NEW_LINES_PER_FILE)"
  by (auto simp: GetSloc_def FindToken_def length_FindToken_from Let_def split: if_splits)

lemma unat_small_size_t: "k \<le> MAX_NEW_LINES_PER_FILE \<Longrightarrow> unat (of_nat k :: size_t) = k"
  by (simp add: unat_of_nat MAX_NEW_LINES_PER_FILE_def ECS_KB_def)

lemma GetSloc_result_bounds:
  assumes "GetSloc ws cont \<lparr>items = [], capacity = MAX_NEW_LINES_PER_FILE\<rparr> = Inr sloc"
  shows "unat sloc \<le> count_list (content cont) newline + 1" and "sloc \<noteq> - 1"
proof -
  let ?n = "count_list (content cont) newline"
  have n: "?n < MAX_NEW_LINES_PER_FILE"
    using assms GetSloc_returns_iff [of ws cont] by blast
  obtain k where k: "k \<le> ?n + 1" "sloc = of_nat (?n + 1 - k)"
    using GetSloc_counts_down [OF n, of ws] assms by auto
  have "?n + 1 - k \<le> MAX_NEW_LINES_PER_FILE" using n by simp
  then have "unat (of_nat (?n + 1 - k) :: size_t) = ?n + 1 - k"
    by (rule unat_small_size_t)
  then have u: "unat sloc = ?n + 1 - k"
    by (simp only: k(2))
  show "unat sloc \<le> ?n + 1" using u by simp
  have "unat sloc \<le> MAX_NEW_LINES_PER_FILE" using u n by simp
  moreover have "unat (- 1 :: size_t) > MAX_NEW_LINES_PER_FILE"
    by (simp add: MAX_NEW_LINES_PER_FILE_def ECS_KB_def unsigned_minus_1_eq_mask mask_eq_exp_minus_1)
  ultimately show "sloc \<noteq> - 1" by auto
qed

lemma logical_lines_nonempty: "logical_lines xs \<noteq> []"
  by (induction xs) (auto split: list.splits)

lemma length_logical_lines: "length (logical_lines xs) = count_list xs newline + 1"
  by (induction xs) (auto split: list.splits simp: logical_lines_nonempty)

lemma logical_lines_no_newline: "newline \<notin> set l \<Longrightarrow> logical_lines l = [l]"
  by (induction l) auto

lemma logical_lines_append_newline:
  "newline \<notin> set l \<Longrightarrow> logical_lines (l @ newline # r) = l # logical_lines r"
  by (induction l) auto

lemma takeWhile_dropWhile_Nil: "takeWhile P (dropWhile P xs) = []"
  by (induction xs) auto

lemma length_takeWhile_less:
  "\<not> (\<forall>c\<in>set l. P c) \<Longrightarrow> length (takeWhile P l) < length l"
  by (induction l) auto

text \<open>The walk of \<^verbatim>\<open>SkipWhitespace\<close> from an offset is the whitespace prefix of what follows.\<close>

lemma SkipWhitespace_append:
  "SkipWhitespace ws (pre @ s) (length pre) = length pre + length (takeWhile ws s)"
proof (induction s arbitrary: pre)
  case Nil
  show ?case by (simp add: SkipWhitespace.simps)
next
  case (Cons c cs)
  show ?case
  proof (cases "ws c")
    case True
    have "SkipWhitespace ws (pre @ c # cs) (length pre)
            = SkipWhitespace ws ((pre @ [c]) @ cs) (length (pre @ [c]))"
      using True by (subst SkipWhitespace.simps) simp
    also have "\<dots> = length (pre @ [c]) + length (takeWhile ws cs)"
      by (rule Cons.IH)
    finally show ?thesis using True by simp
  next
    case False
    then show ?thesis by (subst SkipWhitespace.simps) simp
  qed
qed

lemma SkipWhitespace_stays:
  "\<not> (p < length mem \<and> ws (mem ! p)) \<Longrightarrow> SkipWhitespace ws mem p = p"
  by (subst SkipWhitespace.simps) auto

lemma AreSlocCharacters_scan_append:
  "AreSlocCharacters_scan (a @ b @ c) (length a) (length a + length b)
     = list_ex IsCodeIdentifierCharacter b"
proof (induction b arbitrary: a)
  case Nil
  show ?case by (subst AreSlocCharacters_scan.simps) simp
next
  case (Cons x xs)
  have step: "AreSlocCharacters_scan ((a @ [x]) @ xs @ c) (length (a @ [x])) (length (a @ [x]) + length xs)
          = list_ex IsCodeIdentifierCharacter xs"
    by (rule Cons.IH)
  show ?case
    using step by (subst AreSlocCharacters_scan.simps) simp
qed

text \<open>
  One call of \<^verbatim>\<open>verify_line\<close> on the line \<open>l\<close> that starts at \<^verbatim>\<open>current_character\<close> and ends
  at \<^verbatim>\<open>last_line_character_offset\<close>: the count drops exactly when the line does not count.
\<close>

lemma verify_line_spec:
  assumes mem: "mem = pre @ l @ rest"
    and cur: "current_character st = length pre"
    and off: "last_line_character_offset st = length pre + length l"
  shows "verify_line ws mem st
           = st\<lparr>sloc_count := sloc_count st - (if line_counts ws l then 0 else 1),
                current_character := u32 (length pre + length l + 1)\<rparr>"
proof -
  let ?k = "length (takeWhile ws (l @ rest))"
  have skip: "SkipWhitespace ws mem (length pre) = length pre + ?k"
    unfolding mem by (rule SkipWhitespace_append)
  show ?thesis
  proof (cases "\<forall>c\<in>set l. ws c")
    case True
    then have dw: "dropWhile ws l = []" by simp
    have nc: "\<not> line_counts ws l" by (simp add: line_counts_def dw)
    have k: "?k = length l + length (takeWhile ws rest)"
      using True by (simp add: takeWhile_append2)
    show ?thesis
    proof (cases "takeWhile ws rest = []")
      case True
      then show ?thesis
        using nc by (simp add: verify_line_def cur off skip k Let_def)
    next
      case False
      let ?first = "length pre + (length l + length (takeWhile ws rest))"
      have gt: "?first > length pre + length l" using False by simp
      have "mem = (pre @ l @ takeWhile ws rest) @ dropWhile ws rest"
        by (simp add: mem)
      then have "SkipWhitespace ws mem (length (pre @ l @ takeWhile ws rest))
                  = length (pre @ l @ takeWhile ws rest) + length (takeWhile ws (dropWhile ws rest))"
        by (simp only: SkipWhitespace_append)
      moreover have "takeWhile ws (dropWhile ws rest) = []"
        by (rule takeWhile_dropWhile_Nil)
      ultimately have again: "SkipWhitespace ws mem ?first = ?first" by simp
      have "\<not> AreSlocCharacters ws mem ?first (length pre + length l)"
        using gt by (simp add: AreSlocCharacters_def again)
      then show ?thesis
        using nc gt by (simp add: verify_line_def cur off skip k Let_def)
    qed
  next
    case False
    let ?t = "takeWhile ws l" and ?d = "dropWhile ws l"
    have dne: "?d \<noteq> []" using False by simp
    have k: "?k = length ?t"
      using False by (auto simp: takeWhile_append1)
    have lt: "length ?t < length l"
      using False by (simp add: length_takeWhile_less)
    have mem': "mem = (pre @ ?t) @ ?d @ rest" by (simp add: mem)
    have notws: "\<not> ws (mem ! (length pre + length ?t))"
      using dne hd_dropWhile [of ws l]
      by (simp add: mem' nth_append hd_conv_nth del: append_assoc)
    have again: "SkipWhitespace ws mem (length pre + length ?t) = length pre + length ?t"
      using notws by (simp add: SkipWhitespace_stays)
    have len: "length pre + length l = length (pre @ ?t) + length ?d"
      by (simp add: length_append [symmetric] del: length_append)
    have "AreSlocCharacters_scan mem (length (pre @ ?t)) (length (pre @ ?t) + length ?d)
            = list_ex IsCodeIdentifierCharacter ?d"
      unfolding mem' by (rule AreSlocCharacters_scan_append)
    then have "AreSlocCharacters ws mem (length pre + length ?t) (length pre + length l)
                 = line_counts ws l"
      using lt by (simp add: AreSlocCharacters_def again line_counts_def len)
    then show ?thesis
      using lt by (simp add: verify_line_def cur off skip k Let_def)
  qed
qed

text \<open>
  The loop and the last call together, started inside a line: \<open>partial\<close> is the part of the
  current line already passed, \<open>xs\<close> the text still to scan.
\<close>

lemma verify_lines_spec:
  assumes "mem = pre0 @ partial @ xs @ tail"
    and "newline \<notin> set partial"
    and "length pre0 + length partial + length xs < 2 ^ 32"
    and "current_character st = length pre0"
  shows "sloc_count (verify_line ws mem
            ((verify_lines ws mem (FindToken_from (length pre0 + length partial) xs newline) st)
               \<lparr>last_line_character_offset := u32 (length pre0 + length partial + length xs)\<rparr>))
         = sloc_count st
             - of_nat (length (filter (\<lambda>l. \<not> line_counts ws l) (logical_lines (partial @ xs))))"
  using assms
proof (induction xs arbitrary: pre0 partial st)
  case Nil
  have u: "u32 (length pre0 + length partial) = length pre0 + length partial"
    using Nil.prems(3) by (simp add: u32_id)
  have "verify_line ws mem (st\<lparr>last_line_character_offset := length pre0 + length partial\<rparr>)
          = (st\<lparr>last_line_character_offset := length pre0 + length partial\<rparr>)
              \<lparr>sloc_count := sloc_count st - (if line_counts ws partial then 0 else 1),
               current_character := u32 (length pre0 + length partial + 1)\<rparr>"
    using verify_line_spec [of mem pre0 partial tail
        "st\<lparr>last_line_character_offset := length pre0 + length partial\<rparr>" ws]
      Nil.prems by simp
  then show ?case
    using Nil.prems(2) by (simp add: u logical_lines_no_newline)
next
  case (Cons c cs)
  let ?p = "length pre0 + length partial"
  show ?case
  proof (cases "c = newline")
    case True
    have up: "u32 ?p = ?p" using Cons.prems(3) by (simp add: u32_id)
    have up1: "u32 (?p + 1) = ?p + 1" using Cons.prems(3) by (simp add: u32_id)
    let ?st' = "verify_line ws mem (st\<lparr>last_line_character_offset := ?p\<rparr>)"
    have st': "?st' = (st\<lparr>last_line_character_offset := ?p\<rparr>)
              \<lparr>sloc_count := sloc_count st - (if line_counts ws partial then 0 else 1),
               current_character := ?p + 1\<rparr>"
      using verify_line_spec [of mem pre0 partial "(c # cs) @ tail"
          "st\<lparr>last_line_character_offset := ?p\<rparr>" ws]
        Cons.prems up1 by simp
    have ih: "sloc_count (verify_line ws mem
            ((verify_lines ws mem (FindToken_from (length (pre0 @ partial @ [c]) + length ([]::string)) cs newline) ?st')
               \<lparr>last_line_character_offset := u32 (length (pre0 @ partial @ [c]) + length ([]::string) + length cs)\<rparr>))
         = sloc_count ?st'
             - of_nat (length (filter (\<lambda>l. \<not> line_counts ws l) (logical_lines ([] @ cs))))"
    proof (rule Cons.IH)
      show "mem = (pre0 @ partial @ [c]) @ [] @ cs @ tail" using Cons.prems(1) by simp
      show "newline \<notin> set []" by simp
      show "length (pre0 @ partial @ [c]) + length ([]::string) + length cs < 2 ^ 32"
        using Cons.prems(3) by simp
      show "current_character ?st' = length (pre0 @ partial @ [c])"
        by (subst st') simp
    qed
    have ll: "logical_lines (partial @ c # cs) = partial # logical_lines cs"
      using True Cons.prems(2) by (simp add: logical_lines_append_newline)
    have ft: "FindToken_from ?p (c # cs) newline = ?p # FindToken_from (Suc ?p) cs newline"
      using True up by simp
    have sc: "sloc_count ?st' = sloc_count st - (if line_counts ws partial then 0 else 1)"
      by (subst st') simp
    show ?thesis
      using ih unfolding ft ll sc by simp
  next
    case False
    have ih: "sloc_count (verify_line ws mem
            ((verify_lines ws mem (FindToken_from (length pre0 + length (partial @ [c])) cs newline) st)
               \<lparr>last_line_character_offset := u32 (length pre0 + length (partial @ [c]) + length cs)\<rparr>))
         = sloc_count st
             - of_nat (length (filter (\<lambda>l. \<not> line_counts ws l) (logical_lines ((partial @ [c]) @ cs))))"
    proof (rule Cons.IH)
      show "mem = pre0 @ (partial @ [c]) @ cs @ tail" using Cons.prems(1) by simp
      show "newline \<notin> set (partial @ [c])" using False Cons.prems(2) by simp
      show "length pre0 + length (partial @ [c]) + length cs < 2 ^ 32"
        using Cons.prems(3) by simp
      show "current_character st = length pre0" by (rule Cons.prems(4))
    qed
    have ft: "FindToken_from ?p (c # cs) newline = FindToken_from (Suc ?p) cs newline"
      using False by simp
    show ?thesis
      using ih unfolding ft by simp
  qed
qed

lemma GetSloc_spec:
  assumes n: "count_list (content cont) newline < MAX_NEW_LINES_PER_FILE"
    and len: "length (content cont) < 2 ^ 32"
  shows "GetSloc ws cont \<lparr>items = [], capacity = MAX_NEW_LINES_PER_FILE\<rparr>
           = Inr (of_nat (sloc_of_text ws (content cont)))"
proof -
  let ?xs = "content cont"
  let ?n = "count_list ?xs newline"
  let ?ps = "FindToken_from 0 ?xs newline"
  let ?st0 = "\<lparr>sloc_count = of_nat ?n + 1, current_character = 0, last_line_character_offset = 0\<rparr>"
  let ?st1 = "verify_lines ws (memory cont) ?ps ?st0"
  let ?st2 = "verify_line ws (memory cont) (?st1\<lparr>last_line_character_offset := u32 (length ?xs)\<rparr>)"
  let ?bad = "length (filter (\<lambda>l. \<not> line_counts ws l) (logical_lines ?xs))"
  have lenps: "length ?ps = ?n" by (rule length_FindToken_from)
  have g: "GetSloc ws cont \<lparr>items = [], capacity = MAX_NEW_LINES_PER_FILE\<rparr> = Inr (sloc_count ?st2)"
    using n by (simp add: GetSloc_def FindToken_def lenps Let_def)
  have "sloc_count ?st2 = sloc_count ?st0 - of_nat ?bad"
    using verify_lines_spec [of "memory cont" "[]" "[]" ?xs "beyond cont" ?st0 ws] len
    by (simp add: memory_def)
  then have s2: "sloc_count ?st2 = of_nat (?n + 1) - of_nat ?bad" by simp
  have split: "sloc_of_text ws ?xs + ?bad = ?n + 1"
    unfolding sloc_of_text_def
    using sum_length_filter_compl [of "line_counts ws" "logical_lines ?xs"]
    by (simp add: length_logical_lines)
  have "(of_nat (?n + 1) :: size_t) = of_nat (sloc_of_text ws ?xs) + of_nat ?bad"
    by (simp only: split [symmetric] of_nat_add)
  then have "sloc_count ?st2 = of_nat (sloc_of_text ws ?xs)"
    using s2 by simp
  then show ?thesis using g by simp
qed

lemma sloc_of_text_le: "sloc_of_text ws xs \<le> count_list xs newline + 1"
  unfolding sloc_of_text_def
  using length_filter_le [of "line_counts ws" "logical_lines xs"]
  by (simp add: length_logical_lines)

lemma line_without_identifier:
  "\<not> list_ex IsCodeIdentifierCharacter l \<Longrightarrow> \<not> line_counts ws l"
  by (auto simp: line_counts_def list_ex_iff dest: set_dropWhileD)


subsection \<open>The partitioner\<close>

lemma running_offsets_sizes: "map size' (running_offsets a ss) = ss"
  by (induction ss arbitrary: a) auto

lemma length_running_offsets: "length (running_offsets a ss) = length ss"
  by (induction ss arbitrary: a) auto

lemma running_offsets_offset:
  "i < length ss \<Longrightarrow> offset (running_offsets a ss ! i) = a + sum_list (take i ss)"
proof (induction ss arbitrary: a i)
  case Nil
  then show ?case by simp
next
  case (Cons s ss)
  then show ?case by (cases i) auto
qed

lemma tiles_running_offsets: "tiles a (running_offsets a ss) (a + sum_list ss)"
proof (induction ss arbitrary: a)
  case Nil
  show ?case by simp
next
  case (Cons s ss)
  show ?case using Cons.IH [of "a + s"] by (simp add: add.assoc)
qed

lemma sum_list_extra_first:
  "sum_list (map (\<lambda>i. if i < r then b + 1 else b) [0..<T]) = T * b + min r T"
  by (induction T) auto

lemma length_partition_sizes: "length (partition_sizes T N) = T"
  by (simp add: partition_sizes_def Let_def)

lemma partition_sizes_nth:
  "i < T \<Longrightarrow> partition_sizes T N ! i = N div T + (if i < N mod T then 1 else 0)"
  by (simp add: partition_sizes_def Let_def)

lemma sum_list_partition_sizes: "0 < T \<Longrightarrow> sum_list (partition_sizes T N) = N"
proof -
  assume T: "0 < T"
  then have "N mod T < T" by simp
  then have "min (N mod T) T = N mod T" by simp
  then show ?thesis
    by (simp add: partition_sizes_def Let_def sum_list_extra_first)
qed

lemma length_ThreadPartitionStream: "length (ThreadPartitionStream T N) = T"
  by (simp add: ThreadPartitionStream_def length_running_offsets length_partition_sizes)

lemma ThreadPartitionStream_size:
  "i < T \<Longrightarrow> size' (ThreadPartitionStream T N ! i) = N div T + (if i < N mod T then 1 else 0)"
proof -
  assume i: "i < T"
  have "size' (ThreadPartitionStream T N ! i) = map size' (ThreadPartitionStream T N) ! i"
    using i by (simp add: length_ThreadPartitionStream)
  also have "\<dots> = partition_sizes T N ! i"
    by (simp add: ThreadPartitionStream_def running_offsets_sizes)
  finally show ?thesis using i by (simp add: partition_sizes_nth)
qed

lemma tiles_ThreadPartitionStream: "0 < T \<Longrightarrow> tiles 0 (ThreadPartitionStream T N) N"
  using tiles_running_offsets [of 0 "partition_sizes T N"]
  by (simp add: ThreadPartitionStream_def sum_list_partition_sizes)


subsection \<open>The root-path list\<close>

lemma SkipWhitespace_ge: "p \<le> SkipWhitespace ws mem p"
proof (induction ws mem p rule: SkipWhitespace.induct)
  case (1 ws mem p)
  show ?case
  proof (cases "p < length mem \<and> ws (mem ! p)")
    case True
    then have "SkipWhitespace ws mem p = SkipWhitespace ws mem (p + 1)"
      by (subst SkipWhitespace.simps) simp
    then show ?thesis using "1.IH" True by simp
  next
    case False
    then show ?thesis by (simp add: SkipWhitespace_stays)
  qed
qed

text \<open>The test of the loop, on a line \<open>l\<close> that starts at \<open>length pre\<close>.\<close>

lemma skip_test:
  assumes "mem = pre @ l @ newline # rest"
  shows "(SkipWhitespace ws mem (length pre + 1) = length pre + length l) = (\<not> line_added ws l)"
proof (cases l)
  case Nil
  have "length pre + 1 \<le> SkipWhitespace ws mem (length pre + 1)" by (rule SkipWhitespace_ge)
  then show ?thesis using Nil by (simp add: line_added_def)
next
  case (Cons c l')
  have mem': "mem = (pre @ [c]) @ l' @ newline # rest" using assms Cons by simp
  have skip: "SkipWhitespace ws mem (length pre + 1)
          = length pre + 1 + length (takeWhile ws (l' @ newline # rest))"
    using SkipWhitespace_append [of ws "pre @ [c]" "l' @ newline # rest"] mem' by simp
  show ?thesis
  proof (cases "\<forall>x\<in>set l'. ws x")
    case True
    then have "takeWhile ws (l' @ newline # rest) = l' @ takeWhile ws (newline # rest)"
      by (simp add: takeWhile_append2)
    then show ?thesis
      using skip Cons True by (auto simp: line_added_def list_all_iff)
  next
    case False
    then have "takeWhile ws (l' @ newline # rest) = takeWhile ws l'"
      by (auto simp: takeWhile_append1)
    moreover have "length (takeWhile ws l') < length l'"
      using False by (rule length_takeWhile_less)
    ultimately show ?thesis
      using skip Cons False by (auto simp: line_added_def list_all_iff)
  qed
qed

lemma copied_path:
  "take (length l + 1) (drop (length pre) ((pre @ l @ c # rest)[length pre + length l := z]))
     = l @ [z]"
proof -
  have "(pre @ l @ c # rest)[length pre + length l := z] = pre @ l @ z # rest"
    by (simp add: list_update_append)
  then show ?thesis by simp
qed

lemma read_search_path_shift:
  "read_search_path ws (p # ps) (Suc i) st = read_search_path ws ps i st"
  by (simp add: read_search_path_def)

lemma read_search_paths_loop_shift:
  "read_search_paths_loop ws (p # ps) (map Suc idxs) st = read_search_paths_loop ws ps idxs st"
  by (induction idxs arbitrary: st) (simp_all add: read_search_path_shift)

lemma read_search_paths_loop_Cons:
  "read_search_paths_loop ws (p # ps) [0..<Suc (length ps)] st
     = read_search_paths_loop ws ps [0..<length ps] (read_search_path ws [p] 0 st)"
proof -
  have "[0..<Suc (length ps)] = 0 # map Suc [0..<length ps]"
    by (simp add: upt_conv_Cons map_Suc_upt del: upt_Suc)
  moreover have "read_search_path ws (p # ps) 0 st = read_search_path ws [p] 0 st"
    by (simp add: read_search_path_def)
  ultimately show ?thesis
    by (simp add: read_search_paths_loop_shift del: upt_Suc)
qed

text \<open>One pass of the loop body over the line \<open>l\<close> the newline at \<open>p\<close> ends.\<close>

lemma read_search_path_line:
  assumes buf: "file_content st = pre @ l @ newline # rest"
    and sp: "starting_position st = length pre"
    and p: "p = length pre + length l" and small: "p + 1 < 2 ^ 32"
  shows "\<exists>pre'. length pre' = p + 1
           \<and> file_content (read_search_path ws [p] 0 st) = pre' @ rest
           \<and> starting_position (read_search_path ws [p] 0 st) = p + 1
           \<and> search_paths (read_search_path ws [p] 0 st)
               = search_paths st @ (if line_added ws l then [l @ [CHR 0x00]] else [])"
proof (cases "line_added ws l")
  case True
  have test: "SkipWhitespace ws (file_content st) (length pre + 1) \<noteq> p"
    using skip_test [OF buf, of ws] True p by simp
  have path: "take (p - length pre + 1) (drop (length pre) ((file_content st)[p := CHR 0x00]))
                = l @ [CHR 0x00]"
    using copied_path [of l pre newline rest "CHR 0x00"] by (simp add: buf p)
  have upd: "(file_content st)[p := CHR 0x00] = (pre @ l @ [CHR 0x00]) @ rest"
    by (simp add: buf p list_update_append)
  have "length (pre @ l @ [CHR 0x00]) = p + 1" by (simp add: p)
  then show ?thesis
    using test path upd True small
    by (intro exI [of _ "pre @ l @ [CHR 0x00]"])
       (simp add: read_search_path_def Let_def sp u32_id)
next
  case False
  have test: "SkipWhitespace ws (file_content st) (length pre + 1) = p"
    using skip_test [OF buf, of ws] False p by simp
  have "length (pre @ l @ [newline]) = p + 1" by (simp add: p)
  then show ?thesis
    using test False small buf
    by (intro exI [of _ "pre @ l @ [newline]"])
       (simp add: read_search_path_def Let_def sp u32_id)
qed

lemma butlast_logical_lines_newline:
  "newline \<notin> set l \<Longrightarrow>
     butlast (logical_lines (l @ newline # r)) = l # butlast (logical_lines r)"
  by (simp add: logical_lines_append_newline logical_lines_nonempty)

lemma read_search_paths_loop_spec:
  assumes "file_content st = pre0 @ partial @ xs @ tail"
    and "newline \<notin> set partial"
    and "length pre0 + length partial + length xs < 2 ^ 32"
    and "starting_position st = length pre0"
  shows "search_paths (read_search_paths_loop ws
            (FindToken_from (length pre0 + length partial) xs newline)
            [0..<length (FindToken_from (length pre0 + length partial) xs newline)] st)
         = search_paths st
             @ map (\<lambda>l. l @ [CHR 0x00])
                 (filter (line_added ws) (butlast (logical_lines (partial @ xs))))"
  using assms
proof (induction xs arbitrary: pre0 partial st)
  case Nil
  then show ?case by (simp add: logical_lines_no_newline)
next
  case (Cons c cs)
  let ?p = "length pre0 + length partial"
  show ?case
  proof (cases "c = newline")
    case True
    let ?ps = "FindToken_from (Suc ?p) cs newline"
    let ?st1 = "read_search_path ws [?p] 0 st"
    have up: "u32 ?p = ?p" using Cons.prems(3) by (simp add: u32_id)
    have ft: "FindToken_from ?p (c # cs) newline = ?p # ?ps" using True up by simp
    have buf: "file_content st = pre0 @ partial @ newline # (cs @ tail)"
      using Cons.prems(1) True by simp
    have small: "?p + 1 < 2 ^ 32" using Cons.prems(3) by simp
    obtain pre' where pre': "length pre' = ?p + 1"
      "file_content ?st1 = pre' @ (cs @ tail)"
      "starting_position ?st1 = ?p + 1"
      "search_paths ?st1
         = search_paths st @ (if line_added ws partial then [partial @ [CHR 0x00]] else [])"
      using read_search_path_line [OF buf Cons.prems(4) refl small, of ws] by blast
    have ih: "search_paths (read_search_paths_loop ws
            (FindToken_from (length pre' + length ([]::string)) cs newline)
            [0..<length (FindToken_from (length pre' + length ([]::string)) cs newline)] ?st1)
         = search_paths ?st1
             @ map (\<lambda>l. l @ [CHR 0x00])
                 (filter (line_added ws) (butlast (logical_lines ([] @ cs))))"
    proof (rule Cons.IH)
      show "file_content ?st1 = pre' @ [] @ cs @ tail" using pre'(2) by simp
      show "newline \<notin> set []" by simp
      show "length pre' + length ([]::string) + length cs < 2 ^ 32"
        using pre'(1) Cons.prems(3) by simp
      show "starting_position ?st1 = length pre'" using pre'(1,3) by simp
    qed
    have ll: "butlast (logical_lines (partial @ c # cs)) = partial # butlast (logical_lines cs)"
      using True Cons.prems(2) by (simp add: butlast_logical_lines_newline)
    have "read_search_paths_loop ws (?p # ?ps) [0..<Suc (length ?ps)] st
            = read_search_paths_loop ws ?ps [0..<length ?ps] ?st1"
      by (rule read_search_paths_loop_Cons)
    then show ?thesis
      using ih pre'(1,4) unfolding ft ll by (simp del: upt_Suc)
  next
    case False
    have ih: "search_paths (read_search_paths_loop ws
            (FindToken_from (length pre0 + length (partial @ [c])) cs newline)
            [0..<length (FindToken_from (length pre0 + length (partial @ [c])) cs newline)] st)
         = search_paths st
             @ map (\<lambda>l. l @ [CHR 0x00])
                 (filter (line_added ws) (butlast (logical_lines ((partial @ [c]) @ cs))))"
    proof (rule Cons.IH)
      show "file_content st = pre0 @ (partial @ [c]) @ cs @ tail" using Cons.prems(1) by simp
      show "newline \<notin> set (partial @ [c])" using False Cons.prems(2) by simp
      show "length pre0 + length (partial @ [c]) + length cs < 2 ^ 32"
        using Cons.prems(3) by simp
      show "starting_position st = length pre0" by (rule Cons.prems(4))
    qed
    have ft: "FindToken_from ?p (c # cs) newline = FindToken_from (Suc ?p) cs newline"
      using False by simp
    show ?thesis using ih unfolding ft by simp
  qed
qed

lemma c_string_terminated: "takeWhile (\<lambda>c. c \<noteq> CHR 0x00) (xs @ [CHR 0x00]) = c_string xs"
  by (induction xs) (auto simp: c_string_def)

lemma c_string_split: "\<exists>tail. xs @ [CHR 0x00] = c_string xs @ tail"
  by (metis c_string_terminated takeWhile_dropWhile_id)

lemma length_c_string_le: "length (c_string xs) \<le> length xs"
  by (simp add: c_string_def length_takeWhile_le)

text \<open>What reading the list comes to.\<close>

lemma read_search_paths_spec:
  assumes "length xs < 2 ^ 32"
  shows "read_search_paths ws xs =
           (if count_list (c_string xs) newline \<le> 1024
            then Inr (count_list (c_string xs) newline,
                      map (\<lambda>l. l @ [CHR 0x00])
                        (filter (line_added ws) (butlast (logical_lines (c_string xs)))))
            else Inl AssertionFailed)"
proof -
  let ?ct = "c_string xs"
  let ?ps = "FindToken_from 0 ?ct newline"
  let ?st = "\<lparr>file_content = xs @ [CHR 0x00], search_paths = [], starting_position = 0\<rparr>"
  obtain tail where tail: "xs @ [CHR 0x00] = ?ct @ tail" using c_string_split by blast
  have len: "length ?ps = count_list ?ct newline" by (rule length_FindToken_from)
  have "search_paths (read_search_paths_loop ws
            (FindToken_from (length ([]::string) + length ([]::string)) ?ct newline)
            [0..<length (FindToken_from (length ([]::string) + length ([]::string)) ?ct newline)] ?st)
         = search_paths ?st
             @ map (\<lambda>l. l @ [CHR 0x00])
                 (filter (line_added ws) (butlast (logical_lines ([] @ ?ct))))"
  proof (rule read_search_paths_loop_spec)
    show "file_content ?st = [] @ [] @ ?ct @ tail" using tail by simp
    show "newline \<notin> set []" by simp
    show "length ([]::string) + length ([]::string) + length ?ct < 2 ^ 32"
      using assms length_c_string_le [of xs] by simp
    show "starting_position ?st = length ([]::string)" by simp
  qed
  then have "search_paths (read_search_paths_loop ws ?ps [0..<count_list ?ct newline] ?st)
      = map (\<lambda>l. l @ [CHR 0x00]) (filter (line_added ws) (butlast (logical_lines ?ct)))"
    by (simp add: len)
  then show ?thesis
    by (simp add: read_search_paths_def c_string_terminated FindToken_def len Let_def)
qed

lemma logical_lines_append_last:
  "newline \<notin> set l \<Longrightarrow>
     logical_lines (xs @ l) = butlast (logical_lines xs) @ [last (logical_lines xs) @ l]"
proof (induction xs)
  case Nil
  then show ?case by (simp add: logical_lines_no_newline)
next
  case (Cons c cs)
  then show ?case
    by (cases "logical_lines cs"; cases "logical_lines (cs @ l)")
       (auto simp: logical_lines_nonempty split: if_splits)
qed

lemma butlast_logical_lines_append:
  "newline \<notin> set l \<Longrightarrow> butlast (logical_lines (xs @ l)) = butlast (logical_lines xs)"
  by (simp add: logical_lines_append_last)

lemma c_string_id: "CHR 0x00 \<notin> set xs \<Longrightarrow> c_string xs = xs"
  by (induction xs) (auto simp: c_string_def)

lemma c_string_append:
  "c_string (xs @ ys) = (if CHR 0x00 \<in> set xs then c_string xs else xs @ c_string ys)"
  by (induction xs) (auto simp: c_string_def)

lemma set_c_string_subset: "set (c_string xs) \<subseteq> set xs"
  by (auto simp: c_string_def dest: set_takeWhileD)

lemma unterminated_tail_ignored:
  assumes "newline \<notin> set l"
  shows "count_list (c_string (xs @ l)) newline = count_list (c_string xs) newline"
    and "butlast (logical_lines (c_string (xs @ l))) = butlast (logical_lines (c_string xs))"
proof -
  have nl: "newline \<notin> set (c_string l)" using assms set_c_string_subset [of l] by blast
  show "count_list (c_string (xs @ l)) newline = count_list (c_string xs) newline"
  proof (cases "CHR 0x00 \<in> set xs")
    case True
    then show ?thesis by (simp add: c_string_append)
  next
    case False
    then have "c_string xs = xs" by (rule c_string_id)
    then show ?thesis using False nl by (simp add: c_string_append)
  qed
  show "butlast (logical_lines (c_string (xs @ l))) = butlast (logical_lines (c_string xs))"
  proof (cases "CHR 0x00 \<in> set xs")
    case True
    then show ?thesis by (simp add: c_string_append)
  next
    case False
    then have "c_string xs = xs" by (rule c_string_id)
    then show ?thesis using False nl by (simp add: c_string_append butlast_logical_lines_append)
  qed
qed

subsection \<open>The counting workers\<close>

lemma fault_is_AssertionFailed: "(x :: fault) = AssertionFailed"
  by (cases x) simp

lemma serial_sum_eq: "serial_sum E files = sum_list (map (sloc_or_zero E) files)"
  by (simp add: serial_sum_def)

lemma serial_sum_Nil: "serial_sum E [] = 0"
  by (simp add: serial_sum_def)

lemma serial_sum_Cons: "serial_sum E (f # fs) = sloc_or_zero E f + serial_sum E fs"
  by (simp add: serial_sum_eq)

lemma serial_sum_append: "serial_sum E (fs @ gs) = serial_sum E fs + serial_sum E gs"
  by (simp add: serial_sum_eq)

lemma AddStreamSafe_Inr:
  "AddStreamSafe E buf piece = Inr buf' \<Longrightarrow> buf' = buf\<lparr>items := items buf @ [piece]\<rparr>"
  by (auto simp: AddStreamSafe_def split: if_splits)

lemma AddStreamSafe_never_full:
  "never_full E \<Longrightarrow> AddStreamSafe E buf piece = Inr (buf\<lparr>items := items buf @ [piece]\<rparr>)"
  by (simp add: AddStreamSafe_def never_full_def)

text \<open>
  When the loop body returns, the file's own computation failed no assertion, and the
  subtotal has grown by exactly what the serial reference gives the file.
\<close>

lemma count_file_returns:
  assumes "count_file E d f st = Inr st'"
  shows "counts_without_fault E f" and "thread_sloc st' = thread_sloc st + sloc_or_zero E f"
  using assms
  by (auto simp: counts_without_fault_def sloc_of_file_def count_file_def sloc_or_zero_def
      dest!: AddStreamSafe_Inr split: file_outcome.splits sum.splits if_splits)

lemma count_file_never_full:
  assumes "never_full E" and "counts_without_fault E f"
  shows "\<exists>st'. count_file E d f st = Inr st'"
  using assms
  by (auto simp: counts_without_fault_def sloc_of_file_def count_file_def
      AddStreamSafe_never_full split: file_outcome.splits sum.splits if_splits)

lemma count_file_faults:
  assumes "\<not> counts_without_fault E f"
  shows "count_file E d f st = Inl AssertionFailed"
  using assms
  by (auto simp: counts_without_fault_def sloc_of_file_def count_file_def fault_is_AssertionFailed
      split: file_outcome.splits sum.splits if_splits)

lemma count_files_returns:
  assumes "count_files E d files off idxs st = Inr st'"
  shows "(\<forall>i\<in>set idxs. counts_without_fault E (files ! (off + i)))
       \<and> thread_sloc st' = thread_sloc st + serial_sum E (map (\<lambda>i. files ! (off + i)) idxs)"
  using assms
proof (induction idxs arbitrary: st)
  case Nil
  then show ?case by (simp add: serial_sum_Nil)
next
  case (Cons i idxs)
  obtain st1 where st1: "count_file E d (files ! (off + i)) st = Inr st1"
    and rest: "count_files E d files off idxs st1 = Inr st'"
    using Cons.prems by (auto split: sum.splits)
  have 1: "counts_without_fault E (files ! (off + i))"
    "thread_sloc st1 = thread_sloc st + sloc_or_zero E (files ! (off + i))"
    using count_file_returns [OF st1] by simp_all
  have 2: "(\<forall>i\<in>set idxs. counts_without_fault E (files ! (off + i)))
       \<and> thread_sloc st' = thread_sloc st1 + serial_sum E (map (\<lambda>i. files ! (off + i)) idxs)"
    using Cons.IH [OF rest] .
  show ?case using 1 2 by (simp add: serial_sum_Cons add.assoc)
qed

lemma count_files_never_full:
  assumes "never_full E" and "\<forall>i\<in>set idxs. counts_without_fault E (files ! (off + i))"
  shows "\<exists>st'. count_files E d files off idxs st = Inr st'"
  using assms(2)
proof (induction idxs arbitrary: st)
  case Nil
  show ?case by simp
next
  case (Cons i idxs)
  obtain st1 where st1: "count_file E d (files ! (off + i)) st = Inr st1"
    using count_file_never_full [OF assms(1), of "files ! (off + i)" d st] Cons.prems by auto
  obtain st2 where "count_files E d files off idxs st1 = Inr st2"
    using Cons.IH [of st1] Cons.prems by auto
  then show ?case using st1 by simp
qed

lemma count_files_faults:
  assumes "i \<in> set idxs" and "\<not> counts_without_fault E (files ! (off + i))"
  shows "count_files E d files off idxs st = Inl AssertionFailed"
  using assms
proof (induction idxs arbitrary: st)
  case Nil
  then show ?case by simp
next
  case (Cons j idxs)
  show ?case
  proof (cases "count_file E d (files ! (off + j)) st")
    case (Inl x)
    then show ?thesis by (simp add: fault_is_AssertionFailed)
  next
    case (Inr st1)
    then have "counts_without_fault E (files ! (off + j))"
      using count_file_faults [of E "files ! (off + j)" d st] by auto
    then have "i \<in> set idxs" using Cons.prems by auto
    then show ?thesis using Inr Cons.IH [of st1] Cons.prems(2) by simp
  qed
qed

lemma slice_as_map:
  "offset part + size' part \<le> length files \<Longrightarrow>
     map (\<lambda>i. files ! (offset part + i)) [0..<size' part] = partition_slice files part"
  by (auto simp: partition_slice_def intro!: nth_equalityI)

lemma write_headers_returns:
  "write_headers E d t err add = Inr st0 \<Longrightarrow> thread_sloc st0 = 0"
  by (auto simp: write_headers_def split: sum.splits if_splits)

lemma write_headers_never_full:
  "never_full E \<Longrightarrow> \<exists>st0. write_headers E d t err add = Inr st0"
  by (simp add: write_headers_def AddStreamSafe_never_full)

lemma finish_partition_returns:
  "finish_partition E d st = Inr st' \<Longrightarrow> thread_sloc st' = thread_sloc st"
  by (auto simp: finish_partition_def Let_def split: sum.splits if_splits)

lemma finish_partition_never_full:
  "never_full E \<Longrightarrow> \<exists>st'. finish_partition E d st = Inr st'"
  by (simp add: finish_partition_def Let_def AddStreamSafe_never_full)

text \<open>A worker that gets through its partition holds the serial sum of the partition.\<close>

lemma count_partition_returns:
  assumes "offset part + size' part \<le> length files"
    and "count_partition E d files part t err add = Inr st"
  shows "thread_sloc st = serial_sum E (partition_slice files part)"
proof -
  obtain st0 st1 where st0: "write_headers E d t err add = Inr st0"
    and st1: "count_files E d files (offset part) [0..<size' part] st0 = Inr st1"
    and fin: "finish_partition E d st1 = Inr st"
    using assms(2) by (auto simp: count_partition_def split: sum.splits)
  have "thread_sloc st1 = thread_sloc st0
          + serial_sum E (map (\<lambda>i. files ! (offset part + i)) [0..<size' part])"
    using count_files_returns [OF st1] by simp
  then have "thread_sloc st1 = serial_sum E (partition_slice files part)"
    using write_headers_returns [OF st0] assms(1) by (simp add: slice_as_map)
  then show ?thesis using finish_partition_returns [OF fin] by simp
qed

lemma count_partition_never_full:
  assumes "never_full E" and "offset part + size' part \<le> length files"
    and "\<forall>f\<in>set (partition_slice files part). counts_without_fault E f"
  shows "\<exists>st. count_partition E d files part t err add = Inr st"
proof -
  obtain st0 where st0: "write_headers E d t err add = Inr st0"
    using write_headers_never_full [OF assms(1)] by blast
  have "\<forall>i\<in>set [0..<size' part]. counts_without_fault E (files ! (offset part + i))"
  proof
    fix i assume "i \<in> set [0..<size' part]"
    then have "files ! (offset part + i) \<in> set (map (\<lambda>i. files ! (offset part + i)) [0..<size' part])"
      by simp
    then show "counts_without_fault E (files ! (offset part + i))"
      using assms(2,3) by (simp only: slice_as_map)
  qed
  then obtain st1 where st1: "count_files E d files (offset part) [0..<size' part] st0 = Inr st1"
    using count_files_never_full [OF assms(1)] by blast
  obtain st where "finish_partition E d st1 = Inr st"
    using finish_partition_never_full [OF assms(1)] by blast
  then show ?thesis using st0 st1 by (simp add: count_partition_def)
qed

lemma tiles_le: "tiles a parts b \<Longrightarrow> a \<le> b"
proof (induction parts arbitrary: a)
  case Nil
  then show ?case by simp
next
  case (Cons p ps)
  then have "a + size' p \<le> b" by simp
  then show ?case by simp
qed

lemma tiles_nth_bounds:
  "tiles a parts b \<Longrightarrow> t < length parts \<Longrightarrow>
     a \<le> offset (parts ! t) \<and> offset (parts ! t) + size' (parts ! t) \<le> b"
proof (induction parts arbitrary: a t)
  case Nil
  then show ?case by simp
next
  case (Cons p ps)
  show ?case
  proof (cases t)
    case 0
    then show ?thesis using Cons.prems tiles_le [of "a + size' p" ps b] by simp
  next
    case (Suc t')
    then have "a + size' p \<le> offset (ps ! t') \<and> offset (ps ! t') + size' (ps ! t') \<le> b"
      using Cons.IH [of "a + size' p" t'] Cons.prems by simp
    then show ?thesis using Suc by simp
  qed
qed

lemma tiles_index_ranges:
  "tiles a parts b \<Longrightarrow> concat (map (\<lambda>p. [offset p..<offset p + size' p]) parts) = [a..<b]"
proof (induction parts arbitrary: a)
  case Nil
  then show ?case by simp
next
  case (Cons p ps)
  have le: "a + size' p \<le> b" using Cons.prems tiles_le [of "a + size' p" ps b] by simp
  have "concat (map (\<lambda>p. [offset p..<offset p + size' p]) (p # ps))
          = [a..<a + size' p] @ [a + size' p..<b]"
    using Cons by simp
  also have "\<dots> = [a..<b]"
    using le by (metis le_add1 upt_add_eq_append le_Suc_ex)
  finally show ?case .
qed

lemma tiles_concat_slices:
  "tiles a parts b \<Longrightarrow> b \<le> length files \<Longrightarrow>
     concat (map (partition_slice files) parts) = take (b - a) (drop a files)"
proof (induction parts arbitrary: a)
  case Nil
  then show ?case by simp
next
  case (Cons p ps)
  have le: "a + size' p \<le> b" using Cons.prems tiles_le [of "a + size' p" ps b] by simp
  have ih: "concat (map (partition_slice files) ps) = take (b - (a + size' p)) (drop (a + size' p) files)"
    using Cons by simp
  have "partition_slice files p = take (size' p) (drop a files)"
    using Cons.prems by (simp add: partition_slice_def)
  then have "concat (map (partition_slice files) (p # ps))
      = take (size' p) (drop a files) @ take (b - a - size' p) (drop (size' p) (drop a files))"
    using ih by (simp add: add.commute)
  also have "\<dots> = take (size' p + (b - a - size' p)) (drop a files)"
    by (simp only: take_add)
  also have "size' p + (b - a - size' p) = b - a" using le by simp
  finally show ?case .
qed

lemma serial_sum_concat: "serial_sum E (concat xss) = sum_list (map (serial_sum E) xss)"
  by (induction xss) (simp_all add: serial_sum_Nil serial_sum_append)

lemma set_slice_subset: "set (partition_slice files part) \<subseteq> set files"
  unfolding partition_slice_def by (meson set_take_subset set_drop_subset subset_trans)

lemma slice_empty: "size' part = 0 \<Longrightarrow> partition_slice files part = []"
  by (simp add: partition_slice_def)

lemma LineCountThreadTask_returns:
  assumes "tiles 0 parts (length files)" and "t < length parts"
    and "LineCountThreadTask E d files parts t sh = Inr sh'"
  shows "total_line_count sh'
           = total_line_count sh + serial_sum E (partition_slice files (parts ! t))"
proof (cases "size' (parts ! t) > 0")
  case True
  have b: "offset (parts ! t) + size' (parts ! t) \<le> length files"
    using tiles_nth_bounds [OF assms(1,2)] by simp
  obtain st where st: "count_partition E d files (parts ! t) t
                         (per_thread_error_message sh ! t) (per_thread_additional_message sh ! t) = Inr st"
    and sh': "sh' = sh\<lparr>total_line_count := total_line_count sh + thread_sloc st,
                     per_thread_error_message :=
                       (per_thread_error_message sh)[t := error_message st],
                     per_thread_additional_message :=
                       (per_thread_additional_message sh)[t := additional_display_message st]\<rparr>"
    using assms(3) True by (auto simp: LineCountThreadTask_def split: sum.splits)
  show ?thesis using count_partition_returns [OF b st] sh' by simp
next
  case False
  then show ?thesis
    using assms(3) by (auto simp: LineCountThreadTask_def slice_empty serial_sum_Nil)
qed

lemma LineCountThreadTask_never_full:
  assumes "never_full E" and "tiles 0 parts (length files)" and "t < length parts"
    and "\<forall>f\<in>set files. counts_without_fault E f"
  shows "\<exists>sh'. LineCountThreadTask E d files parts t sh = Inr sh'"
proof (cases "size' (parts ! t) > 0")
  case True
  have b: "offset (parts ! t) + size' (parts ! t) \<le> length files"
    using tiles_nth_bounds [OF assms(2,3)] by simp
  have ok: "\<forall>f\<in>set (partition_slice files (parts ! t)). counts_without_fault E f"
    using assms(4) set_slice_subset [of files "parts ! t"] by blast
  obtain st where "count_partition E d files (parts ! t) t
                         (per_thread_error_message sh ! t) (per_thread_additional_message sh ! t) = Inr st"
    using count_partition_never_full [OF assms(1) b ok] by blast
  then show ?thesis using True by (simp add: LineCountThreadTask_def)
next
  case False
  then show ?thesis by (simp add: LineCountThreadTask_def)
qed

lemma counting_phase_returns:
  assumes "tiles 0 parts (length files)" and "set order \<subseteq> {0..<length parts}"
    and "counting_phase E d files parts order sh = Inr sh'"
  shows "total_line_count sh'
           = total_line_count sh
               + sum_list (map (\<lambda>t. serial_sum E (partition_slice files (parts ! t))) order)"
  using assms(2,3)
proof (induction order arbitrary: sh)
  case Nil
  then show ?case by simp
next
  case (Cons t ts)
  have t: "t < length parts" using Cons.prems(1) by simp
  obtain sh1 where sh1: "LineCountThreadTask E d files parts t sh = Inr sh1"
    and rest: "counting_phase E d files parts ts sh1 = Inr sh'"
    using Cons.prems(2) by (auto split: sum.splits)
  have 1: "total_line_count sh1
             = total_line_count sh + serial_sum E (partition_slice files (parts ! t))"
    using assms(1) t sh1 by (rule LineCountThreadTask_returns)
  have 2: "total_line_count sh'
             = total_line_count sh1
                 + sum_list (map (\<lambda>t. serial_sum E (partition_slice files (parts ! t))) ts)"
    using Cons.IH [OF _ rest] Cons.prems(1) by simp
  show ?case using 1 2 by (simp add: add.assoc)
qed

lemma counting_phase_never_full:
  assumes "never_full E" and "tiles 0 parts (length files)"
    and "set order \<subseteq> {0..<length parts}"
    and "\<forall>f\<in>set files. counts_without_fault E f"
  shows "\<exists>sh'. counting_phase E d files parts order sh = Inr sh'"
  using assms(3)
proof (induction order arbitrary: sh)
  case Nil
  show ?case by simp
next
  case (Cons t ts)
  have t: "t < length parts" using Cons.prems by simp
  obtain sh1 where sh1: "LineCountThreadTask E d files parts t sh = Inr sh1"
    using LineCountThreadTask_never_full [OF assms(1,2) t assms(4)] by blast
  obtain sh2 where "counting_phase E d files parts ts sh1 = Inr sh2"
    using Cons.IH [of sh1] Cons.prems by auto
  then show ?case using sh1 by simp
qed

lemma sum_over_all_workers:
  assumes "tiles 0 parts (length files)" and "distinct order" and "set order = {0..<length parts}"
  shows "sum_list (map (\<lambda>t. serial_sum E (partition_slice files (parts ! t))) order) = serial_sum E files"
proof -
  let ?h = "\<lambda>t. serial_sum E (partition_slice files (parts ! t))"
  have "sum_list (map ?h order) = sum ?h (set order)"
    using assms(2) by (rule sum_list_distinct_conv_sum_set)
  also have "\<dots> = sum ?h (set [0..<length parts])" using assms(3) by simp
  also have "\<dots> = sum_list (map ?h [0..<length parts])"
    by (rule sum_list_distinct_conv_sum_set [symmetric]) simp
  also have "map ?h [0..<length parts] = map (serial_sum E) (map (partition_slice files) parts)"
    by (auto intro!: nth_equalityI)
  also have "sum_list \<dots> = serial_sum E (concat (map (partition_slice files) parts))"
    by (simp only: serial_sum_concat)
  also have "concat (map (partition_slice files) parts) = files"
    using tiles_concat_slices [OF assms(1), of files] by simp
  finally show ?thesis .
qed

lemma sloc_of_file_spec_engine:
  assumes "outcome f = FileText bytes"
    and "strip_multi_line False (strip_single_line False bytes) = Some r"
    and "count_list r newline < MAX_NEW_LINES_PER_FILE"
    and "length r < 2 ^ 32"
  shows "sloc_of_file spec_engine f = Inr (Some (of_nat (sloc_of_text IsWhitespaceCharacter r)))"
proof -
  let ?c = "\<lparr>content = r, beyond = [CHR 0x00]\<rparr>"
  have g: "GetSloc IsWhitespaceCharacter ?c \<lparr>items = [], capacity = MAX_NEW_LINES_PER_FILE\<rparr>
             = Inr (of_nat (sloc_of_text IsWhitespaceCharacter r))"
    using GetSloc_spec [of ?c IsWhitespaceCharacter] assms(3,4) by simp
  have "(of_nat (sloc_of_text IsWhitespaceCharacter r) :: size_t) \<noteq> - 1"
    using GetSloc_result_bounds(2) [OF g] .
  then show ?thesis
    using assms(1,2) g by (simp add: sloc_of_file_def spec_engine_def)
qed


subsection \<open>Files that trip an assertion\<close>

lemma GetSloc_too_many_lines:
  assumes "MAX_NEW_LINES_PER_FILE \<le> count_list (content cont) newline"
  shows "GetSloc ws cont \<lparr>items = [], capacity = MAX_NEW_LINES_PER_FILE\<rparr> = Inl AssertionFailed"
proof (cases "GetSloc ws cont \<lparr>items = [], capacity = MAX_NEW_LINES_PER_FILE\<rparr>")
  case (Inl x)
  then show ?thesis by (simp add: fault_is_AssertionFailed)
next
  case (Inr sloc)
  then have "count_list (content cont) newline < MAX_NEW_LINES_PER_FILE"
    using GetSloc_returns_iff [of ws cont] by blast
  then show ?thesis using assms by simp
qed

lemma count_file_too_many_lines:
  assumes "outcome f = FileText bytes"
    and "RemoveSingleLineComment E \<lparr>content = bytes, beyond = [CHR 0x00]\<rparr> = Inr b1"
    and "RemoveMultiLineComments E b1 = Inr b2"
    and "MAX_NEW_LINES_PER_FILE \<le> count_list (content b2) newline"
  shows "count_file E d f st = Inl AssertionFailed" and "\<not> counts_without_fault E f"
  using assms GetSloc_too_many_lines [of b2 "IsWhitespace E"]
  by (simp_all add: count_file_def counts_without_fault_def sloc_of_file_def)

text \<open>On a file that was read, the loop body leaves the error buffer and the error count alone.\<close>

lemma count_file_text_no_error:
  assumes "outcome f = FileText bytes" and "count_file E d f st = Inr st'"
  shows "error_message st' = error_message st" and "errors st' = errors st"
  using assms GetSloc_result_bounds(2)
  by (auto simp: count_file_def split: sum.splits if_splits)

lemma strip_single_line_no_slash:
  "CHR ''/'' \<notin> set xs \<Longrightarrow> strip_single_line False xs = xs"
  by (induction xs rule: induct_list012) auto

lemma strip_multi_line_no_slash:
  "CHR ''/'' \<notin> set xs \<Longrightarrow> strip_multi_line False xs = Some xs"
  by (induction xs rule: induct_list012) auto

lemma count_list_replicate_same: "count_list (replicate n c) c = n"
  by (induction n) auto

lemma spec_engine_too_many_lines:
  assumes "outcome f = FileText (replicate n newline)" and "MAX_NEW_LINES_PER_FILE \<le> n"
  shows "\<not> counts_without_fault spec_engine f"
proof -
  let ?b = "\<lparr>content = replicate n newline, beyond = [CHR 0x00]\<rparr>"
  have 1: "RemoveSingleLineComment spec_engine ?b = Inr ?b"
    by (simp add: spec_engine_def strip_single_line_no_slash)
  have 2: "RemoveMultiLineComments spec_engine ?b = Inr ?b"
    by (simp add: spec_engine_def strip_multi_line_no_slash)
  have 3: "MAX_NEW_LINES_PER_FILE \<le> count_list (content ?b) newline"
    using assms(2) by (simp add: count_list_replicate_same)
  show ?thesis using count_file_too_many_lines(2) [OF assms(1) 1 2 3] .
qed




subsection \<open>The run as a whole\<close>



lemma count_partition_faults:
  assumes "offset part + size' part \<le> length files"
    and "f \<in> set (partition_slice files part)" and "\<not> counts_without_fault E f"
  shows "count_partition E d files part t err add = Inl AssertionFailed"
proof (cases "count_partition E d files part t err add")
  case (Inl x)
  then show ?thesis by (simp add: fault_is_AssertionFailed)
next
  case (Inr st)
  then obtain st0 where st0: "write_headers E d t err add = Inr st0"
    and nf: "count_files E d files (offset part) [0..<size' part] st0 \<noteq> Inl AssertionFailed"
    by (auto simp: count_partition_def split: sum.splits)
  have "f \<in> set (map (\<lambda>i. files ! (offset part + i)) [0..<size' part])"
    using assms(1,2) by (simp only: slice_as_map)
  then obtain i where i: "i \<in> set [0..<size' part]" "files ! (offset part + i) = f" by auto
  have "\<not> counts_without_fault E (files ! (offset part + i))" using i(2) assms(3) by simp
  with i(1) have "count_files E d files (offset part) [0..<size' part] st0 = Inl AssertionFailed"
    by (rule count_files_faults)
  then show ?thesis using nf by simp
qed






text \<open>When every line of the list was added, every slot the discovery reads was written.\<close>

lemma list_roots_written:
  "(\<forall>i\<in>set idxs. off + i < length paths) \<Longrightarrow>
     list_roots w paths off idxs fs
       = Some (fs @ concat (map (\<lambda>i. files_under w (paths ! (off + i))) idxs))"
  by (induction idxs arbitrary: fs) (auto simp: slot_def)

lemma list_roots_unwritten:
  "i \<in> set idxs \<Longrightarrow> \<not> off + i < length paths \<Longrightarrow> list_roots w paths off idxs fs = None"
  by (induction idxs arbitrary: fs) (auto simp: slot_def split: option.splits)


text \<open>The loop body of the concrete engine on a file that was read.\<close>

lemma count_file_spec_engine:
  assumes "outcome f = FileText bytes"
    and "strip_multi_line False (strip_single_line False bytes) = Some r"
    and "count_list r newline < MAX_NEW_LINES_PER_FILE"
    and "length r < 2 ^ 32"
  shows "count_file spec_engine True f st
           = Inr (st\<lparr>thread_sloc := thread_sloc st + of_nat (sloc_of_text IsWhitespaceCharacter r),
                    additional_display_message :=
                      (additional_display_message st)
                        \<lparr>items := items (additional_display_message st)
                            @ [FileHasSloc (path f)
                                 (of_nat (sloc_of_text IsWhitespaceCharacter r))]\<rparr>\<rparr>)"
proof -
  let ?c = "\<lparr>content = r, beyond = [CHR 0x00]\<rparr>"
  have g: "GetSloc IsWhitespaceCharacter ?c \<lparr>items = [], capacity = MAX_NEW_LINES_PER_FILE\<rparr>
             = Inr (of_nat (sloc_of_text IsWhitespaceCharacter r))"
    using GetSloc_spec [of ?c IsWhitespaceCharacter] assms(3,4) by simp
  have "(of_nat (sloc_of_text IsWhitespaceCharacter r) :: size_t) \<noteq> - 1"
    using GetSloc_result_bounds(2) [OF g] .
  then show ?thesis
    using assms(1,2) g by (simp add: count_file_def spec_engine_def AddStreamSafe_def)
qed

section \<open>Claims about the SLOC counter\<close>

text \<open>
  C1.  For a text with fewer line terminators than the per-file maximum (and of a length
  an \<^verbatim>\<open>unsigned int\<close> offset can hold, as the 10 MB file buffer guarantees), \<^verbatim>\<open>GetSloc\<close>
  returns the number of logical lines that count: there are \<open>terminator_count + 1\<close> logical
  lines, a line counts when a code-identifier character is left after its leading
  whitespace, and a line with no such character (blank, or punctuation and braces only)
  does not count.  The bytes after the text do not matter.
\<close>

theorem GetSloc_counts_logical_lines:
  assumes "count_list (content cont) newline < MAX_NEW_LINES_PER_FILE"
    and "length (content cont) < 2 ^ 32"
  shows "GetSloc ws cont \<lparr>items = [], capacity = MAX_NEW_LINES_PER_FILE\<rparr>
           = Inr (of_nat (length (filter (line_counts ws) (logical_lines (content cont)))))
         \<and> unat (of_nat (length (filter (line_counts ws) (logical_lines (content cont)))) :: size_t)
             = length (filter (line_counts ws) (logical_lines (content cont)))
         \<and> length (logical_lines (content cont)) = count_list (content cont) newline + 1
         \<and> (\<forall>l. \<not> list_ex IsCodeIdentifierCharacter l \<longrightarrow> \<not> line_counts ws l)"
proof -
  have le: "sloc_of_text ws (content cont) \<le> MAX_NEW_LINES_PER_FILE"
    using sloc_of_text_le [of ws "content cont"] assms(1) by simp
  have "unat (of_nat (sloc_of_text ws (content cont)) :: size_t) = sloc_of_text ws (content cont)"
    using le by (rule unat_small_size_t)
  then show ?thesis
    using GetSloc_spec [OF assms, of ws] line_without_identifier [of _ ws]
    by (simp add: sloc_of_text_def length_logical_lines)
qed

theorem GetSloc_counts_logical_lines_witness:
  "GetSloc IsWhitespaceCharacter
     \<lparr>content = ''int x;\<newline>\<newline>  {\<newline>    return x;\<newline>'', beyond = [CHR 0x00]\<rparr>
     \<lparr>items = [], capacity = MAX_NEW_LINES_PER_FILE\<rparr> = Inr 2
   \<and> length (logical_lines ''int x;\<newline>\<newline>  {\<newline>    return x;\<newline>'') = 5
   \<and> \<not> line_counts IsWhitespaceCharacter ''  {''"
proof -
  let ?c = "\<lparr>content = ''int x;\<newline>\<newline>  {\<newline>    return x;\<newline>'', beyond = [CHR 0x00]\<rparr>"
  have h1: "count_list (content ?c) newline < MAX_NEW_LINES_PER_FILE"
    by (simp add: MAX_NEW_LINES_PER_FILE_def ECS_KB_def)
  have h2: "length (content ?c) < 2 ^ 32" by simp
  have ev: "length (filter (line_counts IsWhitespaceCharacter) (logical_lines (content ?c))) = 2"
    by (simp add: line_counts_def IsWhitespaceCharacter_def IsCodeIdentifierCharacter_def)
  have nb: "\<not> list_ex IsCodeIdentifierCharacter ''  {''"
    by (simp add: IsCodeIdentifierCharacter_def)
  show ?thesis
    using GetSloc_counts_logical_lines [OF h1 h2, of IsWhitespaceCharacter] nb
    unfolding ev by simp
qed

text \<open>
  C9.  When the terminator count is below the per-file maximum, \<^verbatim>\<open>GetSloc\<close> returns a value
  between 0 and \<open>terminator_count + 1\<close>, never \<^verbatim>\<open>(size_t)-1\<close>; so for no engine, file and
  state does the worker's loop body end in the branch that appends the parse-failure
  message.
\<close>

theorem GetSloc_never_minus_one:
  "(count_list (content cont) newline < MAX_NEW_LINES_PER_FILE \<longrightarrow>
      (\<exists>sloc. GetSloc ws cont \<lparr>items = [], capacity = MAX_NEW_LINES_PER_FILE\<rparr> = Inr sloc
         \<and> unat sloc \<le> count_list (content cont) newline + 1 \<and> sloc \<noteq> - 1))
   \<and> (\<forall>st'. count_file E d f st = Inr st' \<longrightarrow>
         items (error_message st') \<noteq> items (error_message st) @ [ParsingFailed (path f)])"
proof (intro conjI impI allI)
  assume n: "count_list (content cont) newline < MAX_NEW_LINES_PER_FILE"
  then obtain sloc where s: "GetSloc ws cont \<lparr>items = [], capacity = MAX_NEW_LINES_PER_FILE\<rparr> = Inr sloc"
    using GetSloc_returns_iff [of ws cont] by blast
  show "\<exists>sloc. GetSloc ws cont \<lparr>items = [], capacity = MAX_NEW_LINES_PER_FILE\<rparr> = Inr sloc
         \<and> unat sloc \<le> count_list (content cont) newline + 1 \<and> sloc \<noteq> - 1"
    using s GetSloc_result_bounds [OF s] by blast
next
  fix st'
  assume r: "count_file E d f st = Inr st'"
  show "items (error_message st') \<noteq> items (error_message st) @ [ParsingFailed (path f)]"
    using r GetSloc_result_bounds(2)
    by (auto simp: count_file_def dest!: AddStreamSafe_Inr
        split: file_outcome.splits sum.splits if_splits)
qed

theorem GetSloc_never_minus_one_witness:
  "(\<exists>sloc. GetSloc IsWhitespaceCharacter \<lparr>content = ''{\<newline>x'', beyond = [CHR 0x00]\<rparr>
              \<lparr>items = [], capacity = MAX_NEW_LINES_PER_FILE\<rparr> = Inr sloc
         \<and> unat sloc \<le> 2 \<and> sloc \<noteq> - 1)
   \<and> count_file spec_engine True \<lparr>path = ''a.c'', outcome = FileText ''{\<newline>x''\<rparr>
        \<lparr>error_message = \<lparr>items = [], capacity = COUNT_ERROR_MESSAGE_CAPACITY\<rparr>,
         additional_display_message =
           \<lparr>items = [], capacity = ADDITIONAL_MESSAGE_ALLOCATION_CAPACITY\<rparr>,
         errors = 0, thread_sloc = 0\<rparr>
       = Inr \<lparr>error_message = \<lparr>items = [], capacity = COUNT_ERROR_MESSAGE_CAPACITY\<rparr>,
              additional_display_message =
                \<lparr>items = [FileHasSloc ''a.c'' 1],
                 capacity = ADDITIONAL_MESSAGE_ALLOCATION_CAPACITY\<rparr>,
              errors = 0, thread_sloc = 1\<rparr>
   \<and> ([] :: message list) \<noteq> [] @ [ParsingFailed ''a.c'']"
proof -
  let ?c = "\<lparr>content = ''{\<newline>x'', beyond = [CHR 0x00]\<rparr>"
  let ?f = "\<lparr>path = ''a.c'', outcome = FileText ''{\<newline>x''\<rparr>"
  let ?st = "\<lparr>error_message = \<lparr>items = [], capacity = COUNT_ERROR_MESSAGE_CAPACITY\<rparr>,
         additional_display_message =
           \<lparr>items = [], capacity = ADDITIONAL_MESSAGE_ALLOCATION_CAPACITY\<rparr>,
         errors = 0, thread_sloc = 0\<rparr>"
  have h: "count_list (content ?c) newline < MAX_NEW_LINES_PER_FILE"
    by (simp add: MAX_NEW_LINES_PER_FILE_def ECS_KB_def)
  have r: "count_file spec_engine True ?f ?st
       = Inr \<lparr>error_message = \<lparr>items = [], capacity = COUNT_ERROR_MESSAGE_CAPACITY\<rparr>,
              additional_display_message =
                \<lparr>items = [FileHasSloc ''a.c'' 1],
                 capacity = ADDITIONAL_MESSAGE_ALLOCATION_CAPACITY\<rparr>,
              errors = 0, thread_sloc = 1\<rparr>"
    using count_file_spec_engine [of ?f "''{\<newline>x''" "''{\<newline>x''" ?st]
    by (simp add: MAX_NEW_LINES_PER_FILE_def ECS_KB_def sloc_of_text_def line_counts_def
        IsWhitespaceCharacter_def IsCodeIdentifierCharacter_def)
  show ?thesis
    using GetSloc_never_minus_one [of ?c IsWhitespaceCharacter spec_engine True ?f ?st] h r
    by (simp add: numeral_2_eq_2)
qed

section \<open>Claims about the partitioner\<close>

text \<open>
  C5.  For every item count \<open>N\<close> and worker count \<open>T > 0\<close> the partitioner returns \<open>T\<close>
  partitions; the sizes (naturals, so non-negative) sum to \<open>N\<close>; the first \<open>N mod T\<close>
  partitions hold \<open>N div T + 1\<close> items and the others \<open>N div T\<close>, so any two sizes differ by
  at most one; each offset is the sum of the sizes before it; and when \<open>N < T\<close> some
  partition is empty.
\<close>

theorem ThreadPartitionStream_even:
  assumes "0 < T"
  shows "length (ThreadPartitionStream T N) = T
       \<and> sum_list (map size' (ThreadPartitionStream T N)) = N
       \<and> (\<forall>i<T. size' (ThreadPartitionStream T N ! i) = N div T + (if i < N mod T then 1 else 0))
       \<and> (\<forall>i<T. \<forall>j<T. size' (ThreadPartitionStream T N ! i) \<le> size' (ThreadPartitionStream T N ! j) + 1)
       \<and> (\<forall>i<T. offset (ThreadPartitionStream T N ! i)
                    = sum_list (map size' (take i (ThreadPartitionStream T N))))
       \<and> (N < T \<longrightarrow> (\<exists>i<T. size' (ThreadPartitionStream T N ! i) = 0))"
proof (intro conjI allI impI)
  show "length (ThreadPartitionStream T N) = T" by (rule length_ThreadPartitionStream)
  show "sum_list (map size' (ThreadPartitionStream T N)) = N"
    using assms by (simp add: ThreadPartitionStream_def running_offsets_sizes sum_list_partition_sizes)
  show "size' (ThreadPartitionStream T N ! i) = N div T + (if i < N mod T then 1 else 0)"
    if "i < T" for i using that by (rule ThreadPartitionStream_size)
  show "size' (ThreadPartitionStream T N ! i) \<le> size' (ThreadPartitionStream T N ! j) + 1"
    if "i < T" "j < T" for i j using that by (simp add: ThreadPartitionStream_size)
  show "offset (ThreadPartitionStream T N ! i)
          = sum_list (map size' (take i (ThreadPartitionStream T N)))"
    if "i < T" for i
  proof -
    have "offset (ThreadPartitionStream T N ! i) = sum_list (take i (partition_sizes T N))"
      using that by (simp add: ThreadPartitionStream_def running_offsets_offset length_partition_sizes)
    also have "take i (partition_sizes T N) = map size' (take i (ThreadPartitionStream T N))"
      by (simp add: ThreadPartitionStream_def take_map [symmetric] running_offsets_sizes)
    finally show ?thesis .
  qed
  show "\<exists>i<T. size' (ThreadPartitionStream T N ! i) = 0" if "N < T"
  proof -
    have "size' (ThreadPartitionStream T N ! N) = 0"
      using that by (simp add: ThreadPartitionStream_size)
    then show ?thesis using that by blast
  qed
qed

theorem ThreadPartitionStream_even_witness:
  "ThreadPartitionStream 4 10
     = [\<lparr>offset = 0, size' = 3\<rparr>, \<lparr>offset = 3, size' = 3\<rparr>, \<lparr>offset = 6, size' = 2\<rparr>,
        \<lparr>offset = 8, size' = 2\<rparr>]
   \<and> length (ThreadPartitionStream 4 10) = 4
   \<and> sum_list (map size' (ThreadPartitionStream 4 10)) = 10
   \<and> size' (ThreadPartitionStream 4 2 ! 2) = 0"
proof -
  have ev: "ThreadPartitionStream 4 10
     = [\<lparr>offset = 0, size' = 3\<rparr>, \<lparr>offset = 3, size' = 3\<rparr>, \<lparr>offset = 6, size' = 2\<rparr>,
        \<lparr>offset = 8, size' = 2\<rparr>]"
    by (simp add: ThreadPartitionStream_def partition_sizes_def upt_rec)
  have pos: "(0::nat) < 4" by simp
  show ?thesis
    using ThreadPartitionStream_even [OF pos, of 10] ThreadPartitionStream_even [OF pos, of 2] ev
    by simp
qed


section \<open>Claims about the counting phase\<close>

text \<open>
  C2.  For every partitioning that tiles the discovered files (so for every worker count)
  and every order in which the workers' atomic additions land: a counting phase that
  returns leaves in the global total the serial sum of the SLOC of every file that was
  opened, read and parsed; the phase does return when no file trips an assertion and no
  buffer append finds its buffer full; a worker that returns has added exactly the sum
  over its own partition; and the partitions cover every file index exactly once.
\<close>

theorem counting_phase_total:
  assumes "tiles 0 parts (length files)"
    and "distinct order" and "set order = {0..<length parts}"
  shows "(\<forall>sh'. counting_phase E d files parts order sh = Inr sh' \<longrightarrow>
            total_line_count sh' = total_line_count sh + serial_sum E files)
       \<and> (never_full E \<and> (\<forall>f\<in>set files. counts_without_fault E f) \<longrightarrow>
            (\<exists>sh'. counting_phase E d files parts order sh = Inr sh'))
       \<and> (\<forall>t<length parts. \<forall>sh'. LineCountThreadTask E d files parts t sh = Inr sh' \<longrightarrow>
             total_line_count sh'
               = total_line_count sh + serial_sum E (partition_slice files (parts ! t)))
       \<and> concat (map (\<lambda>p. [offset p..<offset p + size' p]) parts) = [0..<length files]
       \<and> concat (map (partition_slice files) parts) = files"
proof (intro conjI allI impI)
  have sub: "set order \<subseteq> {0..<length parts}" using assms(3) by simp
  show "total_line_count sh' = total_line_count sh + serial_sum E files"
    if ret: "counting_phase E d files parts order sh = Inr sh'" for sh'
    using counting_phase_returns [OF assms(1) sub ret]
      sum_over_all_workers [OF assms(1,2,3), of E]
    by simp
  show "\<exists>sh'. counting_phase E d files parts order sh = Inr sh'"
    if ok: "never_full E \<and> (\<forall>f\<in>set files. counts_without_fault E f)"
  proof -
    have nf: "never_full E" and cw: "\<forall>f\<in>set files. counts_without_fault E f"
      using ok by simp_all
    show ?thesis using nf assms(1) sub cw by (rule counting_phase_never_full)
  qed
  show "concat (map (\<lambda>p. [offset p..<offset p + size' p]) parts) = [0..<length files]"
    using assms(1) by (rule tiles_index_ranges)
  show "concat (map (partition_slice files) parts) = files"
    using tiles_concat_slices [OF assms(1), of files] by simp
  show "total_line_count sh'
          = total_line_count sh + serial_sum E (partition_slice files (parts ! t))"
    if t: "t < length parts" and ret: "LineCountThreadTask E d files parts t sh = Inr sh'"
    for t sh'
    using assms(1) t ret by (rule LineCountThreadTask_returns)
qed

theorem counting_phase_total_witness:
  "\<exists>sh'. counting_phase spec_engine True
            [\<lparr>path = ''a.c'', outcome = FileText ''int x;\<newline>// c\<newline>{\<newline>''\<rparr>,
             \<lparr>path = ''b.c'', outcome = ReadFailed\<rparr>,
             \<lparr>path = ''c.c'', outcome = FileText ''a\<newline>b''\<rparr>]
            (ThreadPartitionStream 2 3) [1, 0]
            \<lparr>total_line_count = 0,
             per_thread_error_message =
               replicate 2 \<lparr>items = [], capacity = COUNT_ERROR_MESSAGE_CAPACITY\<rparr>,
             per_thread_additional_message =
               replicate 2 \<lparr>items = [], capacity = ADDITIONAL_MESSAGE_ALLOCATION_CAPACITY\<rparr>\<rparr>
           = Inr sh'
         \<and> total_line_count sh' = 3"
proof -
  let ?a = "\<lparr>path = ''a.c'', outcome = FileText ''int x;\<newline>// c\<newline>{\<newline>''\<rparr>"
  let ?b = "\<lparr>path = ''b.c'', outcome = ReadFailed\<rparr>"
  let ?c = "\<lparr>path = ''c.c'', outcome = FileText ''a\<newline>b''\<rparr>"
  let ?files = "[?a, ?b, ?c]"
  let ?parts = "ThreadPartitionStream 2 3"
  let ?sh = "\<lparr>total_line_count = 0,
             per_thread_error_message =
               replicate 2 \<lparr>items = [], capacity = COUNT_ERROR_MESSAGE_CAPACITY\<rparr>,
             per_thread_additional_message =
               replicate 2 \<lparr>items = [], capacity = ADDITIONAL_MESSAGE_ALLOCATION_CAPACITY\<rparr>\<rparr>"
  have a: "sloc_of_file spec_engine ?a = Inr (Some 1)"
    using sloc_of_file_spec_engine [of ?a "''int x;\<newline>// c\<newline>{\<newline>''" "''int x;\<newline>\<newline>{\<newline>''"]
    by (simp add: MAX_NEW_LINES_PER_FILE_def ECS_KB_def sloc_of_text_def line_counts_def
        IsWhitespaceCharacter_def IsCodeIdentifierCharacter_def)
  have b: "sloc_of_file spec_engine ?b = Inr None"
    by (simp add: sloc_of_file_def)
  have c: "sloc_of_file spec_engine ?c = Inr (Some 2)"
    using sloc_of_file_spec_engine [of ?c "''a\<newline>b''" "''a\<newline>b''"]
    by (simp add: MAX_NEW_LINES_PER_FILE_def ECS_KB_def sloc_of_text_def line_counts_def
        IsWhitespaceCharacter_def IsCodeIdentifierCharacter_def)
  have h1: "tiles 0 ?parts (length ?files)"
    using tiles_ThreadPartitionStream [of 2 3] by (simp add: numeral_3_eq_3)
  have h2: "distinct [1, 0 :: nat]" by simp
  have h3: "set [1, 0 :: nat] = {0..<length ?parts}"
    by (auto simp: length_ThreadPartitionStream)
  have nf: "never_full spec_engine"
    by (simp add: never_full_def spec_engine_def)
  have h4: "\<forall>f\<in>set ?files. counts_without_fault spec_engine f"
    using a b c by (simp add: counts_without_fault_def)
  have total: "serial_sum spec_engine ?files = 3"
    using a b c by (simp add: serial_sum_def sloc_or_zero_def)
  have inst: "(\<forall>sh'. counting_phase spec_engine True ?files ?parts [1, 0] ?sh = Inr sh' \<longrightarrow>
            total_line_count sh' = total_line_count ?sh + serial_sum spec_engine ?files)
       \<and> (never_full spec_engine \<and> (\<forall>f\<in>set ?files. counts_without_fault spec_engine f) \<longrightarrow>
            (\<exists>sh'. counting_phase spec_engine True ?files ?parts [1, 0] ?sh = Inr sh'))"
    using counting_phase_total [OF h1 h2 h3, of spec_engine True ?sh] by blast
  obtain sh' where sh': "counting_phase spec_engine True ?files ?parts [1, 0] ?sh = Inr sh'"
    using inst nf h4 by blast
  then have "total_line_count sh' = 3" using inst total by simp
  then show ?thesis using sh' by blast
qed

section \<open>Claims about failing files\<close>

text \<open>
  C4, as stated, fails.  A partition holds a file of 131072 line terminators and then an
  ordinary file: the assertion in \<^verbatim>\<open>GetSloc\<close> fails on the first, and the worker's loop
  ends there with the process, instead of recording an error and going on to the second.
\<close>

theorem too_many_lines_counterexample:
  "count_partition spec_engine True
     [\<lparr>path = ''big.c'', outcome = FileText (replicate 131072 newline)\<rparr>,
      \<lparr>path = ''a.c'', outcome = FileText ''int x;''\<rparr>]
     \<lparr>offset = 0, size' = 2\<rparr> 0
     \<lparr>items = [], capacity = COUNT_ERROR_MESSAGE_CAPACITY\<rparr>
     \<lparr>items = [], capacity = ADDITIONAL_MESSAGE_ALLOCATION_CAPACITY\<rparr> = Inl AssertionFailed"
proof -
  let ?big = "\<lparr>path = ''big.c'', outcome = FileText (replicate 131072 newline)\<rparr>"
  let ?files = "[?big, \<lparr>path = ''a.c'', outcome = FileText ''int x;''\<rparr>]"
  let ?part = "\<lparr>offset = 0, size' = 2\<rparr>"
  have nf: "\<not> counts_without_fault spec_engine ?big"
    by (rule spec_engine_too_many_lines [of _ 131072])
       (simp_all add: MAX_NEW_LINES_PER_FILE_def ECS_KB_def)
  have b: "offset ?part + size' ?part \<le> length ?files" by simp
  have m: "?big \<in> set (partition_slice ?files ?part)" by (simp add: partition_slice_def)
  show ?thesis using b m nf by (rule count_partition_faults)
qed

text \<open>
  C4, amended.  For every file whose text, after comment removal, reaches the per-file
  maximum of line terminators, the assertion in \<^verbatim>\<open>GetSloc\<close> fails: the loop body does not
  return for that file, and a file loop that holds the file ends with the failed
  assertion, whatever the files after it.
\<close>

theorem too_many_lines_aborts:
  assumes "outcome f = FileText bytes"
    and "RemoveSingleLineComment E \<lparr>content = bytes, beyond = [CHR 0x00]\<rparr> = Inr b1"
    and "RemoveMultiLineComments E b1 = Inr b2"
    and "MAX_NEW_LINES_PER_FILE \<le> count_list (content b2) newline"
    and "i \<in> set idxs" and "files ! (off + i) = f"
  shows "GetSloc (IsWhitespace E) b2 \<lparr>items = [], capacity = MAX_NEW_LINES_PER_FILE\<rparr>
           = Inl AssertionFailed
       \<and> count_file E d f st = Inl AssertionFailed
       \<and> count_files E d files off idxs st = Inl AssertionFailed"
proof (intro conjI)
  show "GetSloc (IsWhitespace E) b2 \<lparr>items = [], capacity = MAX_NEW_LINES_PER_FILE\<rparr>
           = Inl AssertionFailed"
    using assms(4) by (rule GetSloc_too_many_lines)
  show "count_file E d f st = Inl AssertionFailed"
    using assms(1-4) by (rule count_file_too_many_lines(1))
  have "\<not> counts_without_fault E (files ! (off + i))"
    using count_file_too_many_lines(2) [OF assms(1-4)] assms(6) by simp
  with assms(5) show "count_files E d files off idxs st = Inl AssertionFailed"
    by (rule count_files_faults)
qed

theorem too_many_lines_aborts_witness:
  "GetSloc IsWhitespaceCharacter \<lparr>content = replicate 131072 newline, beyond = [CHR 0x00]\<rparr>
       \<lparr>items = [], capacity = MAX_NEW_LINES_PER_FILE\<rparr> = Inl AssertionFailed
   \<and> count_files spec_engine False
        [\<lparr>path = ''a.c'', outcome = ReadFailed\<rparr>,
         \<lparr>path = ''big.c'', outcome = FileText (replicate 131072 newline)\<rparr>,
         \<lparr>path = ''b.c'', outcome = FileText ''int x;''\<rparr>] 0 [0, 1, 2]
        \<lparr>error_message = \<lparr>items = [], capacity = COUNT_ERROR_MESSAGE_CAPACITY\<rparr>,
         additional_display_message = \<lparr>items = [], capacity = ADDITIONAL_MESSAGE_ALLOCATION_CAPACITY\<rparr>,
         errors = 0, thread_sloc = 0\<rparr>
       = Inl AssertionFailed"
proof -
  let ?b = "\<lparr>content = replicate 131072 newline, beyond = [CHR 0x00]\<rparr>"
  let ?big = "\<lparr>path = ''big.c'', outcome = FileText (replicate 131072 newline)\<rparr>"
  let ?files = "[\<lparr>path = ''a.c'', outcome = ReadFailed\<rparr>, ?big,
                 \<lparr>path = ''b.c'', outcome = FileText ''int x;''\<rparr>]"
  have 0: "outcome ?big = FileText (replicate 131072 newline)" by simp
  have 1: "RemoveSingleLineComment spec_engine ?b = Inr ?b"
    by (simp add: spec_engine_def strip_single_line_no_slash)
  have 2: "RemoveMultiLineComments spec_engine ?b = Inr ?b"
    by (simp add: spec_engine_def strip_multi_line_no_slash)
  have 3: "MAX_NEW_LINES_PER_FILE \<le> count_list (content ?b) newline"
    by (simp add: count_list_replicate_same MAX_NEW_LINES_PER_FILE_def ECS_KB_def)
  have 4: "(1::nat) \<in> set [0, 1, 2]" by simp
  have 5: "?files ! (0 + 1) = ?big" by simp
  have ws: "IsWhitespace spec_engine = IsWhitespaceCharacter" by (simp add: spec_engine_def)
  show ?thesis
    using too_many_lines_aborts [OF 0 1 2 3 4 5, of False
        "\<lparr>error_message = \<lparr>items = [], capacity = COUNT_ERROR_MESSAGE_CAPACITY\<rparr>,
         additional_display_message = \<lparr>items = [], capacity = ADDITIONAL_MESSAGE_ALLOCATION_CAPACITY\<rparr>,
         errors = 0, thread_sloc = 0\<rparr>"]
    unfolding ws by simp
qed

text \<open>
  C3.  A file whose text opens a multi-line comment and never closes it, followed by an
  ordinary file.  With the remover the spec describes for the current design, the worker's
  loop ends at the first file with the process; with a remover that hands the text back
  unchanged, the file is counted like any other and adds to the subtotal.  In neither run
  does the error buffer receive a parse-failure message (lemma
  \<open>count_file_text_no_error\<close> shows that for every engine).
\<close>

theorem unterminated_comment_not_recorded:
  "count_partition spec_engine True
     [\<lparr>path = ''a.cpp'', outcome = FileText ''/* open''\<rparr>,
      \<lparr>path = ''b.cpp'', outcome = FileText ''int x;''\<rparr>]
     \<lparr>offset = 0, size' = 2\<rparr> 0
     \<lparr>items = [], capacity = COUNT_ERROR_MESSAGE_CAPACITY\<rparr>
     \<lparr>items = [], capacity = ADDITIONAL_MESSAGE_ALLOCATION_CAPACITY\<rparr> = Inl AssertionFailed
   \<and> count_file \<lparr>IsWhitespace = IsWhitespaceCharacter,
                  RemoveSingleLineComment = Inr, RemoveMultiLineComments = Inr,
                  has_room = (\<lambda>buf piece. True)\<rparr> True
        \<lparr>path = ''a.cpp'', outcome = FileText ''/* open''\<rparr>
        \<lparr>error_message = \<lparr>items = [], capacity = COUNT_ERROR_MESSAGE_CAPACITY\<rparr>,
         additional_display_message =
           \<lparr>items = [], capacity = ADDITIONAL_MESSAGE_ALLOCATION_CAPACITY\<rparr>,
         errors = 0, thread_sloc = 0\<rparr>
       = Inr \<lparr>error_message = \<lparr>items = [], capacity = COUNT_ERROR_MESSAGE_CAPACITY\<rparr>,
              additional_display_message =
                \<lparr>items = [FileHasSloc ''a.cpp'' 1],
                 capacity = ADDITIONAL_MESSAGE_ALLOCATION_CAPACITY\<rparr>,
              errors = 0, thread_sloc = 1\<rparr>"
proof (intro conjI)
  let ?a = "\<lparr>path = ''a.cpp'', outcome = FileText ''/* open''\<rparr>"
  let ?files = "[?a, \<lparr>path = ''b.cpp'', outcome = FileText ''int x;''\<rparr>]"
  let ?part = "\<lparr>offset = 0, size' = 2\<rparr>"
  have nf: "\<not> counts_without_fault spec_engine ?a"
    by (simp add: counts_without_fault_def sloc_of_file_def spec_engine_def)
  have b: "offset ?part + size' ?part \<le> length ?files" by simp
  have m: "?a \<in> set (partition_slice ?files ?part)" by (simp add: partition_slice_def)
  show "count_partition spec_engine True ?files ?part 0
          \<lparr>items = [], capacity = COUNT_ERROR_MESSAGE_CAPACITY\<rparr>
          \<lparr>items = [], capacity = ADDITIONAL_MESSAGE_ALLOCATION_CAPACITY\<rparr> = Inl AssertionFailed"
    using b m nf by (rule count_partition_faults)
next
  let ?c = "\<lparr>content = ''/* open'', beyond = [CHR 0x00]\<rparr>"
  have "GetSloc IsWhitespaceCharacter ?c \<lparr>items = [], capacity = MAX_NEW_LINES_PER_FILE\<rparr>
          = Inr (of_nat (sloc_of_text IsWhitespaceCharacter (content ?c)))"
    by (rule GetSloc_spec) (simp_all add: MAX_NEW_LINES_PER_FILE_def ECS_KB_def)
  also have "sloc_of_text IsWhitespaceCharacter (content ?c) = 1"
    by (simp add: sloc_of_text_def line_counts_def IsWhitespaceCharacter_def
        IsCodeIdentifierCharacter_def)
  finally show "count_file \<lparr>IsWhitespace = IsWhitespaceCharacter,
                  RemoveSingleLineComment = Inr, RemoveMultiLineComments = Inr,
                  has_room = (\<lambda>buf piece. True)\<rparr> True
        \<lparr>path = ''a.cpp'', outcome = FileText ''/* open''\<rparr>
        \<lparr>error_message = \<lparr>items = [], capacity = COUNT_ERROR_MESSAGE_CAPACITY\<rparr>,
         additional_display_message =
           \<lparr>items = [], capacity = ADDITIONAL_MESSAGE_ALLOCATION_CAPACITY\<rparr>,
         errors = 0, thread_sloc = 0\<rparr>
       = Inr \<lparr>error_message = \<lparr>items = [], capacity = COUNT_ERROR_MESSAGE_CAPACITY\<rparr>,
              additional_display_message =
                \<lparr>items = [FileHasSloc ''a.cpp'' 1],
                 capacity = ADDITIONAL_MESSAGE_ALLOCATION_CAPACITY\<rparr>,
              errors = 0, thread_sloc = 1\<rparr>"
    by (simp add: count_file_def AddStreamSafe_def)
qed

section \<open>Claims about the root-path list\<close>

text \<open>
  C10.  Only lines that a newline ends are candidates: whatever follows the last newline
  of the root-path list (a final line with no newline before end-of-file) changes nothing
  in the result, the candidate count is the number of newlines found, and no more paths
  are added than there are newlines.
\<close>

theorem unterminated_final_line_ignored:
  assumes "newline \<notin> set l" and "length (xs @ l) < 2 ^ 32"
  shows "read_search_paths ws (xs @ l) = read_search_paths ws xs
       \<and> (\<forall>n paths. read_search_paths ws (xs @ l) = Inr (n, paths) \<longrightarrow>
             n = count_list (c_string xs) newline \<and> length paths \<le> n)"
proof -
  have lx: "length xs < 2 ^ 32" using assms(2) by simp
  have eq: "read_search_paths ws (xs @ l) = read_search_paths ws xs"
    using unterminated_tail_ignored [OF assms(1), of xs]
    by (simp only: read_search_paths_spec [OF assms(2)] read_search_paths_spec [OF lx])
  have "length (filter (line_added ws) (butlast (logical_lines (c_string xs))))
          \<le> count_list (c_string xs) newline"
    using length_filter_le [of "line_added ws" "butlast (logical_lines (c_string xs))"]
    by (simp add: length_logical_lines)
  then have "\<forall>n paths. read_search_paths ws xs = Inr (n, paths) \<longrightarrow>
             n = count_list (c_string xs) newline \<and> length paths \<le> n"
    by (auto simp: read_search_paths_spec [OF lx] split: if_splits)
  then show ?thesis using eq by simp
qed

theorem unterminated_final_line_ignored_witness:
  "read_search_paths IsWhitespaceCharacter ''src\<newline>lib\<newline>tail''
     = Inr (2, [''src'' @ [CHR 0x00], ''lib'' @ [CHR 0x00]])
   \<and> read_search_paths IsWhitespaceCharacter ''src\<newline>lib\<newline>''
     = Inr (2, [''src'' @ [CHR 0x00], ''lib'' @ [CHR 0x00]])"
proof -
  have h1: "newline \<notin> set ''tail''" by simp
  have h2: "length (''src\<newline>lib\<newline>'' @ ''tail'') < 2 ^ 32" by simp
  have lx: "length ''src\<newline>lib\<newline>'' < 2 ^ 32" by simp
  have ev: "read_search_paths IsWhitespaceCharacter ''src\<newline>lib\<newline>''
     = Inr (2, [''src'' @ [CHR 0x00], ''lib'' @ [CHR 0x00]])"
    by (simp add: read_search_paths_spec [OF lx] c_string_def line_added_def
        IsWhitespaceCharacter_def)
  show ?thesis
    using unterminated_final_line_ignored [OF h1 h2, of IsWhitespaceCharacter] ev by simp
qed

text \<open>
  C6.  Three one-line lists.  The empty line is added as a search path (the empty path
  and its terminator); the line \<^verbatim>\<open>.\<close>, which is not blank, is ignored; a line of two
  blanks is ignored.  The loop starts its whitespace walk one character after the start
  of the line.
\<close>

theorem blank_line_handling:
  "read_search_paths IsWhitespaceCharacter ''\<newline>'' = Inr (1, [[CHR 0x00]])
   \<and> read_search_paths IsWhitespaceCharacter ''.\<newline>'' = Inr (1, [])
   \<and> read_search_paths IsWhitespaceCharacter ''  \<newline>'' = Inr (1, [])"
proof (intro conjI)
  have l1: "length ''\<newline>'' < 2 ^ 32" by simp
  show "read_search_paths IsWhitespaceCharacter ''\<newline>'' = Inr (1, [[CHR 0x00]])"
    by (simp add: read_search_paths_spec [OF l1] c_string_def line_added_def)
  have l2: "length ''.\<newline>'' < 2 ^ 32" by simp
  show "read_search_paths IsWhitespaceCharacter ''.\<newline>'' = Inr (1, [])"
    by (simp add: read_search_paths_spec [OF l2] c_string_def line_added_def
        IsWhitespaceCharacter_def)
  have l3: "length ''  \<newline>'' < 2 ^ 32" by simp
  show "read_search_paths IsWhitespaceCharacter ''  \<newline>'' = Inr (1, [])"
    by (simp add: read_search_paths_spec [OF l3] c_string_def line_added_def
        IsWhitespaceCharacter_def)
qed



section \<open>Claims about the exit status\<close>





end
